theory Spec2Isabelle
  imports Complex_Main "HOL-Library.Sublist"
begin

section \<open>Values handled by the application\<close>

text \<open>
  A parsed JSON value, as \<^verbatim>\<open>JSON.parse\<close> hands it to \<^verbatim>\<open>src/App.tsx\<close>.
  An object is the list of its own enumerable properties in the order \<^verbatim>\<open>Object.values\<close>
  visits them; a property is read with \<open>map_of\<close>. A number is the rational value of
  the double that \<^verbatim>\<open>JSON.parse\<close> read (both zeros are \<open>0\<close>); the code only tests a
  number for truthiness and renders it with \<^verbatim>\<open>String\<close>.
\<close>

datatype json =
    JNull
  | JBool bool
  | JNum rat
  | JStr string
  | JArr "json list"
  | JObj "(string \<times> json) list"

text \<open>JavaScript truthiness: \<^verbatim>\<open>null\<close>, \<^verbatim>\<open>false\<close>, \<^verbatim>\<open>0\<close> and \<^verbatim>\<open>""\<close> are falsy.\<close>

fun truthy :: "json \<Rightarrow> bool" where
  "truthy JNull = False"
| "truthy (JBool b) = b"
| "truthy (JNum n) = (n \<noteq> 0)"
| "truthy (JStr s) = (s \<noteq> [])"
| "truthy (JArr xs) = True"
| "truthy (JObj kvs) = True"

text \<open>\<^verbatim>\<open>typeof v === 'object'\<close> holds of objects, arrays and \<^verbatim>\<open>null\<close>.\<close>

fun typeof_object :: "json \<Rightarrow> bool" where
  "typeof_object JNull = True"
| "typeof_object (JArr xs) = True"
| "typeof_object (JObj kvs) = True"
| "typeof_object (JBool b) = False"
| "typeof_object (JNum n) = False"
| "typeof_object (JStr s) = False"

text \<open>
  \<^verbatim>\<open>data.k\<close> on an object read from JSON, for the keys the code reads
  (\<^verbatim>\<open>system\<close>, \<^verbatim>\<open>name\<close>, \<^verbatim>\<open>status\<close>, \<^verbatim>\<open>systems\<close>):
  \<open>None\<close> is \<^verbatim>\<open>undefined\<close>, which is falsy.
\<close>

definition truthy_field :: "(string \<times> json) list \<Rightarrow> string \<Rightarrow> bool" where
  "truthy_field kvs k = (case map_of kvs k of None \<Rightarrow> False | Some v \<Rightarrow> truthy v)"

definition field :: "(string \<times> json) list \<Rightarrow> string \<Rightarrow> json" where
  "field kvs k = (case map_of kvs k of None \<Rightarrow> JNull | Some v \<Rightarrow> v)"

subsection \<open>The JavaScript runtime\<close>

text \<open>
  \<^verbatim>\<open>JSON.parse\<close> (\<open>None\<close>: it throws \<^verbatim>\<open>SyntaxError\<close>), \<^verbatim>\<open>JSON.stringify\<close>,
  the rendering \<^verbatim>\<open>String(n)\<close> of a number and \<^verbatim>\<open>String.prototype.toUpperCase\<close>
  belong to the JavaScript runtime, not to the repository: they are parameters of the
  model.
\<close>

record platform =
  JSON_parse :: "string \<Rightarrow> json option"
  JSON_stringify :: "json \<Rightarrow> string"
  Number_toString :: "rat \<Rightarrow> string"
  toUpperCase :: "string \<Rightarrow> string"

subsection \<open>The conversion \<^verbatim>\<open>String(v)\<close>\<close>

text \<open>
  \<^verbatim>\<open>String(v)\<close>. \<open>None\<close> is the \<^verbatim>\<open>TypeError\<close> of an object that cannot be converted
  to a primitive: a JSON object with an own property \<^verbatim>\<open>toString\<close> shadows
  \<^verbatim>\<open>Object.prototype.toString\<close> with a value that is not callable. An array is joined
  with commas, \<^verbatim>\<open>null\<close> elements rendering as the empty string.
\<close>

fun String_js :: "platform \<Rightarrow> json \<Rightarrow> string option"
  and join_js :: "platform \<Rightarrow> json list \<Rightarrow> string option" where
  "String_js P JNull = Some ''null''"
| "String_js P (JBool b) = Some (if b then ''true'' else ''false'')"
| "String_js P (JNum n) = Some (Number_toString P n)"
| "String_js P (JStr s) = Some s"
| "String_js P (JArr xs) = join_js P xs"
| "String_js P (JObj kvs) =
     (if ''toString'' \<in> set (map fst kvs) then None else Some ''[object Object]'')"
| "join_js P [] = Some []"
| "join_js P (x # xs) =
     (case (if x = JNull then Some [] else String_js P x) of
        None \<Rightarrow> None
      | Some s \<Rightarrow>
          (if xs = [] then Some s
           else (case join_js P xs of None \<Rightarrow> None | Some t \<Rightarrow> Some (s @ '','' @ t))))"

section \<open>Application state\<close>

datatype role = User | Model

record message =
  role :: role
  mtext :: string

datatype log = Warn string | Error string

text \<open>
  The interval that \<^verbatim>\<open>timerRef.current\<close> refers to: no interval was ever created,
  the interval is scheduled, or it has been cleared (the reference is kept).
\<close>

datatype timer_handle = Null | Active | Cleared

text \<open>
  The \<^verbatim>\<open>useState\<close> cells and refs of \<^verbatim>\<open>App\<close>, and the part of the browser the
  component talks to: whether \<^verbatim>\<open>window\<close> exists, whether \<^verbatim>\<open>localStorage.getItem\<close>
  and \<^verbatim>\<open>setItem\<close> throw, the string stored under \<^verbatim>\<open>STORAGE_KEY\<close>, and the console.
\<close>

record app =
  messages :: "message list"
  input :: string
  timeLeft :: int
  gameActive :: bool
  gameStarted :: bool
  gameOver :: bool
  victory :: bool
  loading :: bool
  currentSystemData :: json
  systemStatuses :: "(string \<times> json) list"
  chatRef :: bool
  timerRef :: timer_handle
  window_defined :: bool
  getItem_throws :: bool
  setItem_throws :: bool
  localStorage :: "string option"
  console :: "log list"

definition GAME_TIME_LIMIT :: int where
  "GAME_TIME_LIMIT = 600"

definition defaultSystemStatuses :: "(string \<times> json) list" where
  "defaultSystemStatuses =
     [(''PROPULSION'', JStr ''CRITICAL''),
      (''LIFE SUPPORT'', JStr ''CRITICAL''),
      (''NAVIGATION'', JStr ''CRITICAL'')]"

section \<open>Status Store\<close>

text \<open>\<^verbatim>\<open>{ ...obj, [k]: v }\<close>: an existing property keeps its place, a new one is added.\<close>

fun put :: "(string \<times> json) list \<Rightarrow> string \<Rightarrow> json \<Rightarrow> (string \<times> json) list" where
  "put [] k v = [(k, v)]"
| "put ((k', v') # kvs) k v = (if k' = k then (k, v) # kvs else (k', v') # put kvs k v)"

text \<open>
  The own enumerable properties that \<^verbatim>\<open>...parsed\<close> copies: those of an object, the
  indexed elements of an array, the indexed characters of a string, none of any other
  value. An index is a natural number below the length, written in decimal.
\<close>

definition digit_char :: "nat \<Rightarrow> char" where
  "digit_char d = char_of (48 + d)"

fun digits :: "nat \<Rightarrow> string" where
  "digits n = (if n < 10 then [digit_char n] else digits (n div 10) @ [digit_char (n mod 10)])"

declare digits.simps [simp del]

definition index_keys :: "nat \<Rightarrow> string list" where
  "index_keys n = map digits [0..<n]"

fun own_properties :: "json \<Rightarrow> (string \<times> json) list" where
  "own_properties (JObj kvs) = kvs"
| "own_properties (JArr xs) = zip (index_keys (length xs)) xs"
| "own_properties (JStr s) = zip (index_keys (length s)) (map (\<lambda>c. JStr [c]) s)"
| "own_properties JNull = []"
| "own_properties (JBool b) = []"
| "own_properties (JNum n) = []"

definition spread :: "(string \<times> json) list \<Rightarrow> (string \<times> json) list \<Rightarrow> (string \<times> json) list" where
  "spread base over = foldl (\<lambda>acc (k, v). put acc k v) base over"

definition warn :: "string \<Rightarrow> app \<Rightarrow> app" where
  "warn msg st = st\<lparr>console := console st @ [Warn msg]\<rparr>"

text \<open>\<^verbatim>\<open>loadStatuses\<close> (lines 81-93): the loaded map, and the state with what was logged.\<close>

definition loadStatuses :: "platform \<Rightarrow> app \<Rightarrow> (string \<times> json) list \<times> app" where
  "loadStatuses P st =
     (if \<not> window_defined st then (defaultSystemStatuses, st)
      else if getItem_throws st then (defaultSystemStatuses, warn ''Failed to load system statuses'' st)
      else (case localStorage st of
              None \<Rightarrow> (defaultSystemStatuses, st)
            | Some stored \<Rightarrow>
                (if stored = [] then (defaultSystemStatuses, st)
                 else (case JSON_parse P stored of
                         None \<Rightarrow> (defaultSystemStatuses, warn ''Failed to load system statuses'' st)
                       | Some parsed \<Rightarrow> (spread defaultSystemStatuses (own_properties parsed), st)))))"

text \<open>The warning of line 90.\<close>

definition load_warning :: log where
  "load_warning = Warn ''Failed to load system statuses''"

text \<open>\<^verbatim>\<open>persistStatuses\<close> (lines 131-138).\<close>

definition persistStatuses :: "platform \<Rightarrow> (string \<times> json) list \<Rightarrow> app \<Rightarrow> app" where
  "persistStatuses P next st =
     (if \<not> window_defined st then st
      else if setItem_throws st then warn ''Failed to persist statuses'' st
      else st\<lparr>localStorage := Some (JSON_stringify P (JObj next))\<rparr>)"

text \<open>\<^verbatim>\<open>updateSystemStatus\<close> (lines 140-148).\<close>

definition updateSystemStatus :: "platform \<Rightarrow> string \<Rightarrow> string \<Rightarrow> app \<Rightarrow> app" where
  "updateSystemStatus P system status st =
     (let key = toUpperCase P system;
          val = toUpperCase P status;
          next = put (systemStatuses st) key (JStr val)
      in (persistStatuses P next st)\<lparr>systemStatuses := next\<rparr>)"

section \<open>Status Applier\<close>

text \<open>
  A call either returns, or a \<^verbatim>\<open>TypeError\<close> raised by \<^verbatim>\<open>String\<close> leaves it; the state
  updates made before the exception stay.
\<close>

datatype completion = Done app | Threw app

fun state_of :: "completion \<Rightarrow> app" where
  "state_of (Done st) = st"
| "state_of (Threw st) = st"

text \<open>
  \<^verbatim>\<open>updateSystemStatus(String(i), String(s))\<close>: the arguments are converted left to
  right before the call.
\<close>

definition record_update :: "platform \<Rightarrow> json \<Rightarrow> json \<Rightarrow> app \<Rightarrow> completion" where
  "record_update P i s st =
     (case String_js P i of
        None \<Rightarrow> Threw st
      | Some a \<Rightarrow> (case String_js P s of None \<Rightarrow> Threw st | Some b \<Rightarrow> Done (updateSystemStatus P a b st)))"

definition systems_elements :: "(string \<times> json) list \<Rightarrow> json list" where
  "systems_elements kvs = (case map_of kvs ''systems'' of Some (JArr xs) \<Rightarrow> xs | _ \<Rightarrow> [])"

definition object_values :: "(string \<times> json) list \<Rightarrow> json list" where
  "object_values kvs = filter typeof_object (map snd kvs)"

text \<open>
  \<^verbatim>\<open>applyStatusesFromData\<close> (lines 150-170); \<open>forEach_apply\<close> is
  \<^verbatim>\<open>xs.forEach(applyStatusesFromData)\<close>. A falsy value returns at line 151; a truthy
  string, number or boolean has none of the fields read and is not an object.
\<close>

function applyStatusesFromData :: "platform \<Rightarrow> json \<Rightarrow> app \<Rightarrow> completion"
  and forEach_apply :: "platform \<Rightarrow> json list \<Rightarrow> app \<Rightarrow> completion" where
  "applyStatusesFromData P JNull st = Done st"
| "applyStatusesFromData P (JBool b) st = Done st"
| "applyStatusesFromData P (JNum n) st = Done st"
| "applyStatusesFromData P (JStr s) st = Done st"
| "applyStatusesFromData P (JArr xs) st = forEach_apply P xs st"
| "applyStatusesFromData P (JObj kvs) st =
     (case (if truthy_field kvs ''system'' \<and> truthy_field kvs ''status''
            then record_update P (field kvs ''system'') (field kvs ''status'') st
            else Done st) of
        Threw s \<Rightarrow> Threw s
      | Done s1 \<Rightarrow>
          (case (if truthy_field kvs ''name'' \<and> truthy_field kvs ''status''
                 then record_update P (field kvs ''name'') (field kvs ''status'') s1
                 else Done s1) of
             Threw s \<Rightarrow> Threw s
           | Done s2 \<Rightarrow>
               (case forEach_apply P (systems_elements kvs) s2 of
                  Threw s \<Rightarrow> Threw s
                | Done s3 \<Rightarrow> forEach_apply P (object_values kvs) s3)))"
| "forEach_apply P [] st = Done st"
| "forEach_apply P (x # xs) st =
     (case applyStatusesFromData P x st of
        Threw s \<Rightarrow> Threw s
      | Done s \<Rightarrow> forEach_apply P xs s)"
  by pat_completeness auto
termination
proof -
  have obj: "size_list size (filter typeof_object (map snd kvs))
               \<le> size_list (size_prod (\<lambda>x. 0) size) kvs" for kvs :: "(string \<times> json) list"
    by (induction kvs) auto
  have sys: "map_of kvs k = Some (JArr xs) \<Longrightarrow>
               size_list size xs < size_list (size_prod (\<lambda>x. 0) size) kvs"
    for kvs :: "(string \<times> json) list" and k xs
    by (induction kvs) (auto split: if_splits)
  have sys': "size_list size (systems_elements kvs) \<le> size_list (size_prod (\<lambda>x. 0) size) kvs"
    for kvs :: "(string \<times> json) list"
    using sys [of kvs "''systems''"]
    by (auto simp: systems_elements_def split: option.splits json.splits dest: less_imp_le)
  show ?thesis
    apply (relation "measure (\<lambda>x. case x of
                        Inl (P, d, st) \<Rightarrow> 2 * size d
                      | Inr (P, ds, st) \<Rightarrow> 2 * size_list size ds + 1)")
    using obj sys'
    by (auto simp: object_values_def le_imp_less_Suc)
qed

text \<open>
  The traversal rule as a list: the updates one object node records itself, the updates
  of a whole value in the order the traversal makes them, and every object node of a
  value at any depth.
\<close>

definition own_updates :: "(string \<times> json) list \<Rightarrow> (json \<times> json) list" where
  "own_updates kvs =
     (if truthy_field kvs ''system'' \<and> truthy_field kvs ''status''
      then [(field kvs ''system'', field kvs ''status'')] else []) @
     (if truthy_field kvs ''name'' \<and> truthy_field kvs ''status''
      then [(field kvs ''name'', field kvs ''status'')] else [])"

function pending :: "json \<Rightarrow> (json \<times> json) list" where
  "pending JNull = []"
| "pending (JBool b) = []"
| "pending (JNum n) = []"
| "pending (JStr s) = []"
| "pending (JArr xs) = concat (map pending xs)"
| "pending (JObj kvs) =
     own_updates kvs @ concat (map pending (systems_elements kvs))
       @ concat (map pending (object_values kvs))"
  by pat_completeness auto
termination
proof -
  have arr: "x \<in> set xs \<Longrightarrow> size x < Suc (size_list size xs)"
    for xs :: "json list" and x
    by (induction xs) auto
  have mem: "(a, x) \<in> set kvs \<Longrightarrow> size x < Suc (size_list (size_prod (\<lambda>x. 0) size) kvs)"
    for kvs :: "(string \<times> json) list" and a x
    by (induction kvs) auto
  have obj: "x \<in> set (object_values kvs) \<Longrightarrow> size x < Suc (size_list (size_prod (\<lambda>x. 0) size) kvs)"
    for kvs :: "(string \<times> json) list" and x
    using mem [of _ x kvs] by (auto simp: object_values_def)
  have sys: "x \<in> set (systems_elements kvs) \<Longrightarrow> size x < Suc (size_list (size_prod (\<lambda>x. 0) size) kvs)"
    for kvs :: "(string \<times> json) list" and x
  proof -
    assume x: "x \<in> set (systems_elements kvs)"
    have "\<exists>xs. map_of kvs ''systems'' = Some (JArr xs) \<and> x \<in> set xs"
    proof (cases "map_of kvs ''systems''")
      case None
      with x show ?thesis by (simp add: systems_elements_def)
    next
      case (Some v)
      with x show ?thesis by (cases v) (simp_all add: systems_elements_def)
    qed
    then obtain xs where m: "map_of kvs ''systems'' = Some (JArr xs)" and xs: "x \<in> set xs"
      by blast
    from m have "(''systems'', JArr xs) \<in> set kvs"
      by (rule map_of_SomeD)
    from mem [OF this] arr [OF xs] show ?thesis
      by simp
  qed
  show ?thesis
    apply (relation "measure size")
    using arr obj sys by auto
qed

function object_nodes :: "json \<Rightarrow> (string \<times> json) list list" where
  "object_nodes JNull = []"
| "object_nodes (JBool b) = []"
| "object_nodes (JNum n) = []"
| "object_nodes (JStr s) = []"
| "object_nodes (JArr xs) = concat (map object_nodes xs)"
| "object_nodes (JObj kvs) = kvs # concat (map object_nodes (map snd kvs))"
  by pat_completeness auto
termination
proof -
  have arr: "x \<in> set xs \<Longrightarrow> size x < Suc (size_list size xs)"
    for xs :: "json list" and x
    by (induction xs) auto
  have mem: "(a, x) \<in> set kvs \<Longrightarrow> size x < Suc (size_list (size_prod (\<lambda>x. 0) size) kvs)"
    for kvs :: "(string \<times> json) list" and a x
    by (induction kvs) auto
  show ?thesis
    apply (relation "measure size")
    using arr mem by auto
qed

text \<open>Running a list of recorded updates in order, until a conversion throws.\<close>

fun run_updates :: "platform \<Rightarrow> (json \<times> json) list \<Rightarrow> app \<Rightarrow> completion" where
  "run_updates P [] st = Done st"
| "run_updates P ((i, s) # us) st =
     (case record_update P i s st of
        Threw t \<Rightarrow> Threw t
      | Done t \<Rightarrow> run_updates P us t)"

text \<open>The key and value each recorded update writes, until a conversion throws.\<close>

fun writes :: "platform \<Rightarrow> (json \<times> json) list \<Rightarrow> (string \<times> string) list" where
  "writes P [] = []"
| "writes P ((i, s) # us) =
     (case String_js P i of
        None \<Rightarrow> []
      | Some a \<Rightarrow>
          (case String_js P s of
             None \<Rightarrow> []
           | Some b \<Rightarrow> (toUpperCase P a, toUpperCase P b) # writes P us))"

definition convertible :: "platform \<Rightarrow> json \<times> json \<Rightarrow> bool" where
  "convertible P u = (String_js P (fst u) \<noteq> None \<and> String_js P (snd u) \<noteq> None)"

text \<open>
  The map after a list of writes, the value last written under a key, and the stored
  item being the serialisation of the current map.
\<close>

definition write_all :: "(string \<times> json) list \<Rightarrow> (string \<times> string) list \<Rightarrow> (string \<times> json) list" where
  "write_all m ws = foldl (\<lambda>acc (k, v). put acc k (JStr v)) m ws"

definition last_write :: "(string \<times> string) list \<Rightarrow> string \<Rightarrow> string option" where
  "last_write ws k = map_of (rev ws) k"

definition persisted :: "platform \<Rightarrow> app \<Rightarrow> bool" where
  "persisted P st = (localStorage st = Some (JSON_stringify P (JObj (systemStatuses st))))"

text \<open>
  The rule as the specification words it: a field is had when the key is present, and
  the \<^verbatim>\<open>name\<close> pair is recorded only when the \<^verbatim>\<open>system\<close> pair is not.
\<close>

definition has_field :: "(string \<times> json) list \<Rightarrow> string \<Rightarrow> bool" where
  "has_field kvs k = (map_of kvs k \<noteq> None)"

definition stated_updates :: "(string \<times> json) list \<Rightarrow> (json \<times> json) list" where
  "stated_updates kvs =
     (if has_field kvs ''system'' \<and> has_field kvs ''status''
      then [(field kvs ''system'', field kvs ''status'')]
      else if has_field kvs ''name'' \<and> has_field kvs ''status''
      then [(field kvs ''name'', field kvs ''status'')]
      else [])"

definition stated_pending :: "json \<Rightarrow> (json \<times> json) list" where
  "stated_pending d = concat (map stated_updates (object_nodes d))"

section \<open>JSON Extractor\<close>

definition fence_open :: string where
  "fence_open = ''```json\<newline>''"

definition fence_close :: string where
  "fence_close = ''\<newline>```''"

text \<open>
  The lazy group \<^verbatim>\<open>([\s\S]*?)\<close> followed by the closing pattern: the shortest run of
  characters after which the closing pattern stands.
\<close>

fun lazy_until :: "string \<Rightarrow> string \<Rightarrow> string option" where
  "lazy_until cl [] = (if cl = [] then Some [] else None)"
| "lazy_until cl (c # cs) =
     (if prefix cl (c # cs) then Some [] else map_option (Cons c) (lazy_until cl cs))"

text \<open>
  \<^verbatim>\<open>text.match(/```json\n([\s\S]*?)\n```/)\<close>: the start positions are tried from the
  left; the result is group 1 of the first match, \<open>None\<close> when nothing matches.
\<close>

fun match_fence :: "string \<Rightarrow> string option" where
  "match_fence [] = None"
| "match_fence (c # cs) =
     (if prefix fence_open (c # cs)
      then (case lazy_until fence_close (drop (length fence_open) (c # cs)) of
              Some g \<Rightarrow> Some g
            | None \<Rightarrow> match_fence cs)
      else match_fence cs)"

text \<open>\<^verbatim>\<open>extractJson\<close> (lines 192-202): the value returned (\<^verbatim>\<open>null\<close> is \<open>JNull\<close>).\<close>

definition extractJson :: "platform \<Rightarrow> string \<Rightarrow> app \<Rightarrow> json \<times> app" where
  "extractJson P txt st =
     (case match_fence txt of
        None \<Rightarrow> (JNull, st)
      | Some g \<Rightarrow>
          (if g = [] then (JNull, st)
           else (case JSON_parse P g of
                   Some v \<Rightarrow> (v, st)
                 | None \<Rightarrow> (JNull, st\<lparr>console := console st @ [Error ''Failed to parse extracted JSON'']\<rparr>))))"

text \<open>
  A fenced block tagged as JSON, in the specification's words: the text is \<open>pre\<close>, the
  opening fence, the content \<open>g\<close>, the closing fence and \<open>post\<close>. It is the first
  block when the opening fence does not start earlier, and its content ends at the first
  closing fence.
\<close>

definition first_fence :: "string \<Rightarrow> string \<Rightarrow> string \<Rightarrow> string \<Rightarrow> bool" where
  "first_fence t pre g post =
     (t = pre @ fence_open @ g @ fence_close @ post
      \<and> \<not> sublist fence_open (pre @ butlast fence_open)
      \<and> \<not> sublist fence_close (g @ butlast fence_close))"

section \<open>Countdown Timer\<close>

text \<open>\<^verbatim>\<open>endGame\<close> (lines 264-269).\<close>

definition endGame :: "bool \<Rightarrow> app \<Rightarrow> app" where
  "endGame isVictory st =
     (let st1 = (if timerRef st \<noteq> Null then st\<lparr>timerRef := Cleared\<rparr> else st)
      in st1\<lparr>gameActive := False, gameOver := True, victory := isVictory\<rparr>)"

text \<open>\<^verbatim>\<open>startTimer\<close> (lines 251-262): the previous interval is cleared, a new one scheduled.\<close>

definition startTimer :: "app \<Rightarrow> app" where
  "startTimer st =
     (let st1 = (if timerRef st \<noteq> Null then st\<lparr>timerRef := Cleared\<rparr> else st)
      in st1\<lparr>timerRef := Active\<rparr>)"

text \<open>
  One firing of the interval callback (lines 254-260). A cleared interval does not fire.
\<close>

definition tick :: "app \<Rightarrow> app" where
  "tick st =
     (if timerRef st \<noteq> Active then st
      else if timeLeft st \<le> 1 then (endGame False st)\<lparr>timeLeft := 0\<rparr>
      else st\<lparr>timeLeft := timeLeft st - 1\<rparr>)"

text \<open>The tick that calls \<^verbatim>\<open>endGame\<close>.\<close>

definition tick_ends_game :: "app \<Rightarrow> bool" where
  "tick_ends_game st = (timerRef st = Active \<and> timeLeft st \<le> 1)"

section \<open>Chat Session Controller\<close>

text \<open>
  What the model service does with one turn: \<^verbatim>\<open>sendMessageStream\<close> rejects, the stream
  delivers chunks and then throws, or it delivers chunks and ends. A chunk is its
  \<^verbatim>\<open>text\<close> property, which may be undefined. \<^verbatim>\<open>ai.chats.create\<close> may throw as well.
\<close>

type_synonym chunk = "string option"

datatype turn = Send_rejects | Stream_breaks "chunk list" | Stream_ends "chunk list"

datatype session = Create_throws | Created turn

text \<open>\<^verbatim>\<open>chunk.text || ''\<close>\<close>

definition chunk_text :: "chunk \<Rightarrow> string" where
  "chunk_text c = (case c of None \<Rightarrow> [] | Some t \<Rightarrow> t)"

definition model_message :: "string \<Rightarrow> message" where
  "model_message t = \<lparr>role = Model, mtext = t\<rparr>"

definition user_message :: "string \<Rightarrow> message" where
  "user_message t = \<lparr>role = User, mtext = t\<rparr>"

text \<open>The loop of \<^verbatim>\<open>startGame\<close> (lines 230-234): the accumulated text and the state.\<close>

fun stream_start :: "chunk list \<Rightarrow> string \<Rightarrow> app \<Rightarrow> string \<times> app" where
  "stream_start [] fullText st = (fullText, st)"
| "stream_start (c # cs) fullText st =
     (let fullText' = fullText @ chunk_text c
      in stream_start cs fullText' (st\<lparr>messages := [model_message fullText']\<rparr>))"

text \<open>
  \<^verbatim>\<open>newMessages[newMessages.length - 1] = m\<close> on a copy (lines 291-295): on an empty
  array the assignment to index -1 adds no element.
\<close>

definition replace_last :: "message \<Rightarrow> message list \<Rightarrow> message list" where
  "replace_last m ms = (if ms = [] then [] else butlast ms @ [m])"

text \<open>The loop of \<^verbatim>\<open>handleSend\<close> (lines 288-296).\<close>

fun stream_send :: "chunk list \<Rightarrow> string \<Rightarrow> app \<Rightarrow> string \<times> app" where
  "stream_send [] fullText st = (fullText, st)"
| "stream_send (c # cs) fullText st =
     (let fullText' = fullText @ chunk_text c
      in stream_send cs fullText' (st\<lparr>messages := replace_last (model_message fullText') (messages st)\<rparr>))"

definition link_failure :: message where
  "link_failure = model_message ''ERROR: NEURAL LINK FAILURE. REBOOT REQUIRED.''"

definition communication_interrupted :: message where
  "communication_interrupted = model_message ''ERROR: COMMUNICATION INTERRUPTED. RETRY COMMAND.''"

text \<open>
  What follows the stream in both handlers (lines 236-240 and 298-302): the payload is
  extracted and, when truthy, stored and applied.
\<close>

definition apply_extracted :: "platform \<Rightarrow> string \<Rightarrow> app \<Rightarrow> completion" where
  "apply_extracted P fullText st =
     (case extractJson P fullText st of
        (extracted, s) \<Rightarrow>
          (if truthy extracted
           then applyStatusesFromData P extracted (s\<lparr>currentSystemData := extracted\<rparr>)
           else Done s))"

text \<open>The \<^verbatim>\<open>try\<close> block of \<^verbatim>\<open>startGame\<close> (lines 215-242).\<close>

definition start_try :: "platform \<Rightarrow> session \<Rightarrow> app \<Rightarrow> completion" where
  "start_try P api st =
     (case api of
        Create_throws \<Rightarrow> Threw st
      | Created t \<Rightarrow>
          (let st1 = st\<lparr>chatRef := True\<rparr> in
           case t of
             Send_rejects \<Rightarrow> Threw st1
           | Stream_breaks cs \<Rightarrow> Threw (snd (stream_start cs [] (st1\<lparr>messages := [model_message []]\<rparr>)))
           | Stream_ends cs \<Rightarrow>
               (case stream_start cs [] (st1\<lparr>messages := [model_message []]\<rparr>) of
                  (fullText, s1) \<Rightarrow>
                    (case apply_extracted P fullText s1 of
                       Threw s \<Rightarrow> Threw s
                     | Done s2 \<Rightarrow> Done (startTimer s2)))))"

text \<open>\<^verbatim>\<open>startGame\<close> (lines 204-249).\<close>

definition startGame :: "platform \<Rightarrow> session \<Rightarrow> app \<Rightarrow> app" where
  "startGame P api st =
     (let st1 = st\<lparr>loading := True, gameStarted := True, gameActive := True, gameOver := False,
                   victory := False, timeLeft := GAME_TIME_LIMIT, messages := [],
                   currentSystemData := JNull\<rparr>;
          st2 = (case loadStatuses P st1 of (loaded, s) \<Rightarrow> s\<lparr>systemStatuses := loaded\<rparr>);
          st3 = (case start_try P api st2 of
                   Done s \<Rightarrow> s
                 | Threw s \<Rightarrow> s\<lparr>console := console s @ [Error ''Failed to start game:''],
                                 messages := [link_failure]\<rparr>)
      in st3\<lparr>loading := False\<rparr>)"

text \<open>\<^verbatim>\<open>input.trim()\<close> is empty: every character is white space.\<close>

definition is_space :: "char \<Rightarrow> bool" where
  "is_space c = (let n = (of_char c :: nat) in (9 \<le> n \<and> n \<le> 13) \<or> n = 32)"

definition blank :: "string \<Rightarrow> bool" where
  "blank s = list_all is_space s"

definition victory_marker :: string where
  "victory_marker = ''MISSION SUCCESS''"

text \<open>
  The \<^verbatim>\<open>try\<close> block of \<^verbatim>\<open>handleSend\<close> (lines 280-306). Calling a method of
  \<^verbatim>\<open>chatRef.current\<close> while it is \<^verbatim>\<open>null\<close> throws.
\<close>

definition send_try :: "platform \<Rightarrow> turn \<Rightarrow> app \<Rightarrow> completion" where
  "send_try P t st =
     (if \<not> chatRef st then Threw st
      else case t of
        Send_rejects \<Rightarrow> Threw st
      | Stream_breaks cs \<Rightarrow>
          Threw (snd (stream_send cs [] (st\<lparr>messages := messages st @ [model_message []]\<rparr>)))
      | Stream_ends cs \<Rightarrow>
          (case stream_send cs [] (st\<lparr>messages := messages st @ [model_message []]\<rparr>) of
             (fullText, s1) \<Rightarrow>
               (case apply_extracted P fullText s1 of
                  Threw s \<Rightarrow> Threw s
                | Done s2 \<Rightarrow>
                    Done (if sublist victory_marker (toUpperCase P fullText)
                          then endGame True s2 else s2))))"

text \<open>\<^verbatim>\<open>handleSend\<close> (lines 271-313).\<close>

definition handleSend :: "platform \<Rightarrow> turn \<Rightarrow> app \<Rightarrow> app" where
  "handleSend P t st =
     (if blank (input st) \<or> \<not> gameActive st \<or> loading st then st
      else
        (let userMsg = input st;
             st1 = st\<lparr>input := [], messages := messages st @ [user_message userMsg],
                       loading := True\<rparr>;
             st2 = (case send_try P t st1 of
                      Done s \<Rightarrow> s
                    | Threw s \<Rightarrow> s\<lparr>console := console s @ [Error ''AI Error:''],
                                    messages := messages s @ [communication_interrupted]\<rparr>)
         in st2\<lparr>loading := False\<rparr>))"


section \<open>The component as a whole\<close>

text \<open>
  The state after the first render: the initial values of the \<^verbatim>\<open>useState\<close> cells
  (lines 61-72 and 95) in a browser given by its four storage observations.
\<close>

definition mount :: "platform \<Rightarrow> bool \<Rightarrow> bool \<Rightarrow> bool \<Rightarrow> string option \<Rightarrow> app" where
  "mount P win get_throws set_throws stored =
     (let st0 = \<lparr>messages = [], input = [], timeLeft = GAME_TIME_LIMIT, gameActive = False,
                  gameStarted = False, gameOver = False, victory = False, loading = False,
                  currentSystemData = JNull, systemStatuses = [], chatRef = False,
                  timerRef = Null, window_defined = win, getItem_throws = get_throws,
                  setItem_throws = set_throws, localStorage = stored, console = []\<rparr>
      in case loadStatuses P st0 of (loaded, s) \<Rightarrow> s\<lparr>systemStatuses := loaded\<rparr>)"

text \<open>
  What can happen to a mounted component: a start or restart button is pressed, the form
  is submitted, the interval fires, the user edits the input box.
\<close>

datatype event = Start session | Send turn | Tick | Type string

fun step :: "platform \<Rightarrow> app \<Rightarrow> event \<Rightarrow> app" where
  "step P st (Start api) = startGame P api st"
| "step P st (Send t) = handleSend P t st"
| "step P st Tick = tick st"
| "step P st (Type s) = st\<lparr>input := s\<rparr>"

definition run :: "platform \<Rightarrow> app \<Rightarrow> event list \<Rightarrow> app" where
  "run P st evs = foldl (step P) st evs"

definition default_keys :: "string set" where
  "default_keys = {''PROPULSION'', ''LIFE SUPPORT'', ''NAVIGATION''}"

definition keys_of :: "(string \<times> json) list \<Rightarrow> string set" where
  "keys_of m = fst ` set m"

section \<open>A concrete runtime for the examples\<close>

text \<open>
  The examples run on a runtime that is exact on what they use and is not meant beyond
  it: \<^verbatim>\<open>String(n)\<close> for an integer of magnitude below \<open>10\<^sup>2\<^sup>1\<close> (its decimal digits),
  \<^verbatim>\<open>toUpperCase\<close> on ASCII text (the letters a to z become A to Z),
  \<^verbatim>\<open>JSON.stringify\<close> on values whose strings hold no quote, backslash or control
  character (nothing is escaped), and \<^verbatim>\<open>JSON.parse\<close> on the texts that serialise one
  of a few known payloads; any other text is taken not to parse.
\<close>

definition integer_toString :: "rat \<Rightarrow> string" where
  "integer_toString q =
     (let n = \<lfloor>q\<rfloor> in if n < 0 then CHR ''-'' # digits (nat (- n)) else digits (nat n))"

definition upper_char :: "char \<Rightarrow> char" where
  "upper_char c =
     (let n = (of_char c :: nat) in if 97 \<le> n \<and> n \<le> 122 then char_of (n - 32) else c)"

definition ascii_toUpperCase :: "string \<Rightarrow> string" where
  "ascii_toUpperCase s = map upper_char s"

definition quote :: "string \<Rightarrow> string" where
  "quote s = CHR 0x22 # s @ [CHR 0x22]"

fun example_stringify :: "json \<Rightarrow> string"
  and stringify_elements :: "json list \<Rightarrow> string"
  and stringify_members :: "(string \<times> json) list \<Rightarrow> string"
  and stringify_member :: "string \<times> json \<Rightarrow> string" where
  "example_stringify JNull = ''null''"
| "example_stringify (JBool b) = (if b then ''true'' else ''false'')"
| "example_stringify (JNum n) = integer_toString n"
| "example_stringify (JStr s) = quote s"
| "example_stringify (JArr xs) = ''['' @ stringify_elements xs @ '']''"
| "example_stringify (JObj kvs) = ''{'' @ stringify_members kvs @ ''}''"
| "stringify_elements [] = []"
| "stringify_elements (x # xs) =
     example_stringify x @ (if xs = [] then [] else '','' @ stringify_elements xs)"
| "stringify_members [] = []"
| "stringify_members (p # kvs) =
     stringify_member p @ (if kvs = [] then [] else '','' @ stringify_members kvs)"
| "stringify_member (k, v) = quote k @ '':'' @ example_stringify v"

definition power_payload :: json where
  "power_payload =
     JObj [(''system'', JStr ''POWER''), (''status'', JStr ''CRITICAL''),
           (''parameters'', JObj [(''voltage'', JNum 220)])]"

definition known_payloads :: "json list" where
  "known_payloads =
     [power_payload,
      JObj [(''POWER'', JStr ''RESOLVED'')],
      JObj [(''system'', JObj [(''toString'', JNum 1)]), (''status'', JStr ''OK'')]]"

definition example_parse :: "string \<Rightarrow> json option" where
  "example_parse txt = find (\<lambda>v. example_stringify v = txt) known_payloads"

definition example_platform :: platform where
  "example_platform =
     \<lparr>JSON_parse = example_parse, JSON_stringify = example_stringify,
      Number_toString = integer_toString, toUpperCase = ascii_toUpperCase\<rparr>"

text \<open>A browser with working, empty storage.\<close>

definition fresh_app :: app where
  "fresh_app = mount example_platform True False False None"

text \<open>A first model turn that lists the three systems, streamed in three chunks.\<close>

definition opening_turn :: session where
  "opening_turn = Created (Stream_ends [Some ''PROPULSION - STATUS: '', None, Some ''CRITICAL''])"

text \<open>
  Payloads for the examples: one node with both identifier fields next to one with an
  empty status; one key written twice, and a \<^verbatim>\<open>name\<close> with an empty status, below a
  \<^verbatim>\<open>systems\<close> array; a node whose \<^verbatim>\<open>system\<close> is empty; a node whose status is empty.
\<close>

definition both_named :: json where
  "both_named =
     JArr [JObj [(''system'', JStr ''nav''), (''name'', JStr ''autopilot''), (''status'', JStr ''ok'')],
           JObj [(''system'', JStr ''power''), (''status'', JStr '''')]]"

definition rewritten :: json where
  "rewritten =
     JObj [(''systems'',
            JArr [JObj [(''system'', JStr ''power''), (''status'', JStr ''critical'')],
                  JObj [(''system'', JStr ''POWER''), (''status'', JStr ''resolved'')],
                  JObj [(''name'', JStr ''shields''), (''status'', JStr '''')]])]"

definition falsy_system :: json where
  "falsy_system = JObj [(''system'', JStr ''''), (''name'', JStr ''nav''), (''status'', JStr ''ok'')]"

definition falsy_status :: json where
  "falsy_status = JObj [(''system'', JStr ''POWER''), (''status'', JStr '''')]"

text \<open>
  Model turns for the extractor: a payload followed by a second fenced block, and a
  fenced block whose content is not JSON.
\<close>

definition power_text :: string where
  "power_text = ''{\"system\":\"POWER\",\"status\":\"CRITICAL\",\"parameters\":{\"voltage\":220}}''"

definition later_block :: string where
  "later_block = ''\<newline>Then:\<newline>```json\<newline>{\"POWER\":\"RESOLVED\"}\<newline>```''"

definition two_blocks :: string where
  "two_blocks =
     ''Switching to POWER.\<newline>```json\<newline>'' @ power_text @ ''\<newline>```'' @ later_block"

definition broken_block :: string where
  "broken_block = ''```json\<newline>{broken\<newline>```''"




section \<open>Countdown Timer: the run to expiry\<close>

lemma tick_running:
  assumes "timerRef s0 = Active" "timeLeft s0 = 600" "k \<le> 599"
  shows "(tick ^^ k) s0 = s0\<lparr>timeLeft := 600 - int k\<rparr>"
  using assms
proof (induction k)
  case 0
  then show ?case by simp
next
  case (Suc k)
  then show ?case by (simp add: tick_def)
qed

lemma tick_stopped: "timerRef st \<noteq> Active \<Longrightarrow> (tick ^^ k) st = st"
  by (induction k) (simp_all add: tick_def)

lemma tick_expiry:
  assumes "timerRef s0 = Active" "timeLeft s0 = 600"
  shows "(tick ^^ 600) s0 = (endGame False s0)\<lparr>timeLeft := 0\<rparr>"
proof -
  have "(600 :: nat) = Suc 599"
    by simp
  then have "(tick ^^ 600) s0 = tick ((tick ^^ 599) s0)"
    by (metis funpow.simps(2) o_apply)
  also have "\<dots> = tick (s0\<lparr>timeLeft := 1\<rparr>)"
    using tick_running [OF assms, of 599] by simp
  also have "\<dots> = (endGame False s0)\<lparr>timeLeft := 0\<rparr>"
    using assms by (simp add: tick_def endGame_def)
  finally show ?thesis .
qed

lemma tick_after_expiry:
  assumes "timerRef s0 = Active" "timeLeft s0 = 600" "600 \<le> k"
  shows "(tick ^^ k) s0 = (tick ^^ 600) s0"
proof -
  obtain j where k: "k = j + 600"
    using assms(3) by (metis le_add_diff_inverse2)
  have "timerRef ((tick ^^ 600) s0) \<noteq> Active"
    using assms by (simp add: tick_expiry endGame_def)
  then show ?thesis
    unfolding k funpow_add o_apply by (rule tick_stopped)
qed

text \<open>
  C3. A timer that runs from the fixed total of 600 seconds: each of the first 599 ticks
  takes exactly one second off and leaves the time positive and the game running; the
  600th tick sets the time to zero, marks the session game-over and not a victory and
  clears the interval; the time is never negative; the tick that ends the game happens
  exactly once (it is the 600th); and nothing changes afterwards.
\<close>

theorem C3_timer_runs_to_expiry:
  assumes "timerRef s0 = Active" and "timeLeft s0 = GAME_TIME_LIMIT" and "\<not> gameOver s0"
  shows "(\<forall>k<599. timeLeft ((tick ^^ Suc k) s0) = timeLeft ((tick ^^ k) s0) - 1
              \<and> 0 < timeLeft ((tick ^^ Suc k) s0) \<and> \<not> gameOver ((tick ^^ Suc k) s0))
       \<and> (timeLeft ((tick ^^ 600) s0) = 0 \<and> gameOver ((tick ^^ 600) s0)
            \<and> \<not> victory ((tick ^^ 600) s0) \<and> \<not> gameActive ((tick ^^ 600) s0)
            \<and> timerRef ((tick ^^ 600) s0) = Cleared)
       \<and> (\<forall>k. 0 \<le> timeLeft ((tick ^^ k) s0))
       \<and> (\<forall>k. tick_ends_game ((tick ^^ k) s0) \<longleftrightarrow> k = 599)
       \<and> (\<forall>k\<ge>600. (tick ^^ k) s0 = (tick ^^ 600) s0)"
proof -
  have a: "timerRef s0 = Active" and t: "timeLeft s0 = 600"
    using assms by (simp_all add: GAME_TIME_LIMIT_def)
  have early: "(tick ^^ k) s0 = s0\<lparr>timeLeft := 600 - int k\<rparr>" if "k \<le> 599" for k
    using tick_running [OF a t that] .
  have expiry: "(tick ^^ 600) s0 = (endGame False s0)\<lparr>timeLeft := 0\<rparr>"
    using tick_expiry [OF a t] .
  have late: "(tick ^^ k) s0 = (tick ^^ 600) s0" if "600 \<le> k" for k
    using tick_after_expiry [OF a t that] .
  have 1: "\<forall>k<599. timeLeft ((tick ^^ Suc k) s0) = timeLeft ((tick ^^ k) s0) - 1
              \<and> 0 < timeLeft ((tick ^^ Suc k) s0) \<and> \<not> gameOver ((tick ^^ Suc k) s0)"
  proof (intro allI impI)
    fix k :: nat
    assume k: "k < 599"
    then have "Suc k \<le> 599" "k \<le> 599"
      by simp_all
    then show "timeLeft ((tick ^^ Suc k) s0) = timeLeft ((tick ^^ k) s0) - 1
              \<and> 0 < timeLeft ((tick ^^ Suc k) s0) \<and> \<not> gameOver ((tick ^^ Suc k) s0)"
      using k assms(3) by (simp only: early) simp
  qed
  have 2: "timeLeft ((tick ^^ 600) s0) = 0 \<and> gameOver ((tick ^^ 600) s0)
            \<and> \<not> victory ((tick ^^ 600) s0) \<and> \<not> gameActive ((tick ^^ 600) s0)
            \<and> timerRef ((tick ^^ 600) s0) = Cleared"
    using a by (simp add: expiry endGame_def)
  have 3: "0 \<le> timeLeft ((tick ^^ k) s0)" for k
  proof (cases "k \<le> 599")
    case True
    then show ?thesis by (simp add: early)
  next
    case False
    then have "(tick ^^ k) s0 = (tick ^^ 600) s0"
      by (intro late) simp
    then show ?thesis using 2 by simp
  qed
  have 4: "tick_ends_game ((tick ^^ k) s0) \<longleftrightarrow> k = 599" for k
  proof (cases "k \<le> 599")
    case True
    then show ?thesis using a by (auto simp: early tick_ends_game_def)
  next
    case False
    then have "(tick ^^ k) s0 = (tick ^^ 600) s0"
      by (intro late) simp
    then show ?thesis using 2 False by (simp add: tick_ends_game_def)
  qed
  have 5: "\<forall>k\<ge>600. (tick ^^ k) s0 = (tick ^^ 600) s0"
    using late by blast
  have nonneg: "\<forall>k. 0 \<le> timeLeft ((tick ^^ k) s0)"
    using 3 by blast
  have once: "\<forall>k. tick_ends_game ((tick ^^ k) s0) \<longleftrightarrow> k = 599"
    using 4 by blast
  show ?thesis
    by (rule conjI [OF 1 conjI [OF 2 conjI [OF nonneg conjI [OF once 5]]]])
qed

theorem C3_timer_runs_to_expiry_witness:
  "timerRef (startGame example_platform opening_turn fresh_app) = Active
   \<and> timeLeft (startGame example_platform opening_turn fresh_app) = GAME_TIME_LIMIT
   \<and> \<not> gameOver (startGame example_platform opening_turn fresh_app)
   \<and> timeLeft ((tick ^^ 600) (startGame example_platform opening_turn fresh_app)) = 0
   \<and> gameOver ((tick ^^ 600) (startGame example_platform opening_turn fresh_app))
   \<and> \<not> victory ((tick ^^ 600) (startGame example_platform opening_turn fresh_app))
   \<and> tick_ends_game ((tick ^^ 599) (startGame example_platform opening_turn fresh_app))
   \<and> \<not> tick_ends_game ((tick ^^ 600) (startGame example_platform opening_turn fresh_app))"
proof -
  have h1: "timerRef (startGame example_platform opening_turn fresh_app) = Active"
    by code_simp
  have h2: "timeLeft (startGame example_platform opening_turn fresh_app) = GAME_TIME_LIMIT"
    by code_simp
  have h3: "\<not> gameOver (startGame example_platform opening_turn fresh_app)"
    by code_simp
  note run = C3_timer_runs_to_expiry [OF h1 h2 h3]
  note expiry = run [THEN conjunct2, THEN conjunct1]
  note once = run [THEN conjunct2, THEN conjunct2, THEN conjunct2, THEN conjunct1]
  have a: "tick_ends_game ((tick ^^ 599) (startGame example_platform opening_turn fresh_app))"
    using once [THEN spec, of 599] by (simp only:)
  have b: "\<not> tick_ends_game ((tick ^^ 600) (startGame example_platform opening_turn fresh_app))"
    using once [THEN spec, of 600] by (simp only: numeral_eq_iff semiring_norm simp_thms)
  show ?thesis
    using expiry h1 h2 h3 a b by (simp only: simp_thms)
qed

section \<open>Status Applier: the traversal as a list of updates\<close>

lemma map_of_put: "map_of (put m k v) = (map_of m)(k \<mapsto> v)"
  by (induction m k v rule: put.induct) (auto simp: fun_eq_iff)

lemma keys_of_put: "keys_of (put m k v) = insert k (keys_of m)"
  by (induction m k v rule: put.induct) (auto simp: keys_of_def)

lemma run_updates_append:
  "run_updates P (us @ vs) st =
     (case run_updates P us st of Threw s \<Rightarrow> Threw s | Done s \<Rightarrow> run_updates P vs s)"
  by (induction us arbitrary: st) (auto split: completion.splits)

lemma forEach_apply_append:
  "forEach_apply P (xs @ ys) st =
     (case forEach_apply P xs st of Threw s \<Rightarrow> Threw s | Done s \<Rightarrow> forEach_apply P ys s)"
  by (induction xs arbitrary: st) (auto split: completion.splits)

lemma forEach_runs_pending:
  assumes "\<And>x st. x \<in> set xs \<Longrightarrow> applyStatusesFromData P x st = run_updates P (pending x) st"
  shows "forEach_apply P xs st = run_updates P (concat (map pending xs)) st"
  using assms
proof (induction xs arbitrary: st)
  case Nil
  show ?case by simp
next
  case (Cons x xs)
  then show ?case
    by (simp add: run_updates_append split: completion.splits)
qed

lemma systems_elements_cases:
  "systems_elements kvs = [] \<or> (''systems'', JArr (systems_elements kvs)) \<in> set kvs"
proof (cases "map_of kvs ''systems''")
  case None
  then show ?thesis by (simp add: systems_elements_def)
next
  case (Some v)
  then have "(''systems'', v) \<in> set kvs"
    by (rule map_of_SomeD)
  with Some show ?thesis
    by (cases v) (simp_all add: systems_elements_def)
qed

lemma applier_runs_pending:
  "applyStatusesFromData P d st = run_updates P (pending d) st"
proof (induction d arbitrary: st)
  case (JArr xs)
  then show ?case
    by (simp add: forEach_runs_pending)
next
  case (JObj kvs)
  have vals: "forEach_apply P (object_values kvs) s
                = run_updates P (concat (map pending (object_values kvs))) s" for s
  proof (rule forEach_runs_pending)
    fix x st
    assume "x \<in> set (object_values kvs)"
    then obtain k where "(k, x) \<in> set kvs"
      by (auto simp: object_values_def)
    then show "applyStatusesFromData P x st = run_updates P (pending x) st"
      by (intro JObj.IH [of "(k, x)" x]) simp_all
  qed
  have sys: "forEach_apply P (systems_elements kvs) s
               = run_updates P (concat (map pending (systems_elements kvs))) s" for s
  proof -
    consider "systems_elements kvs = []"
      | "(''systems'', JArr (systems_elements kvs)) \<in> set kvs"
      using systems_elements_cases by blast
    then show ?thesis
    proof cases
      case 1
      then show ?thesis by simp
    next
      case 2
      have "applyStatusesFromData P (JArr (systems_elements kvs)) s
              = run_updates P (pending (JArr (systems_elements kvs))) s"
        by (intro JObj.IH [OF 2]) simp
      then show ?thesis by simp
    qed
  qed
  show ?case
    by (simp add: own_updates_def run_updates_append sys vals split: completion.splits)
qed simp_all

lemma applier_node:
  "applyStatusesFromData P (JObj kvs) st =
     (case run_updates P (own_updates kvs) st of
        Threw s \<Rightarrow> Threw s
      | Done s \<Rightarrow> forEach_apply P (systems_elements kvs @ object_values kvs) s)"
  by (simp add: own_updates_def forEach_apply_append split: completion.splits)

lemma pending_nodes:
  "set (pending d) = (\<Union>kvs\<in>set (object_nodes d). set (own_updates kvs))"
proof (induction d)
  case (JArr xs)
  then show ?case by auto
next
  case (JObj kvs)
  have IH: "set (pending v) = (\<Union>n\<in>set (object_nodes v). set (own_updates n))"
    if "(k, v) \<in> set kvs" for k v
    using that by (intro JObj.IH [of "(k, v)" v]) simp_all
  have vals: "(\<Union>x\<in>set (object_values kvs). set (pending x))
                = (\<Union>v\<in>snd ` set kvs. \<Union>n\<in>set (object_nodes v). set (own_updates n))"
  proof -
    have "(\<Union>x\<in>set (object_values kvs). set (pending x)) = (\<Union>v\<in>snd ` set kvs. set (pending v))"
    proof -
      have "typeof_object v" if "x \<in> set (pending v)" for v x
        using that by (cases v) simp_all
      then show ?thesis
        by (fastforce simp: object_values_def)
    qed
    also have "\<dots> = (\<Union>v\<in>snd ` set kvs. \<Union>n\<in>set (object_nodes v). set (own_updates n))"
    proof (intro SUP_cong refl)
      fix v
      assume "v \<in> snd ` set kvs"
      then obtain k where "(k, v) \<in> set kvs"
        by auto
      then show "set (pending v) = (\<Union>n\<in>set (object_nodes v). set (own_updates n))"
        by (rule IH)
    qed
    finally show ?thesis .
  qed
  have sys: "(\<Union>x\<in>set (systems_elements kvs). set (pending x))
               \<subseteq> (\<Union>x\<in>set (object_values kvs). set (pending x))"
  proof -
    consider "systems_elements kvs = []"
      | "(''systems'', JArr (systems_elements kvs)) \<in> set kvs"
      using systems_elements_cases by blast
    then show ?thesis
    proof cases
      case 1
      then show ?thesis by simp
    next
      case 2
      then have "JArr (systems_elements kvs) \<in> set (object_values kvs)"
        by (force simp: object_values_def)
      then have "set (pending (JArr (systems_elements kvs)))
                   \<subseteq> (\<Union>x\<in>set (object_values kvs). set (pending x))"
        by blast
      then show ?thesis by simp
    qed
  qed
  show ?case
    using sys vals by auto
qed simp_all

text \<open>
  C1, as amended. Applying a value makes, in order, the updates of \<open>pending\<close>, stopping
  where a conversion throws. An object node records the pair (\<^verbatim>\<open>system\<close>, \<^verbatim>\<open>status\<close>) when
  both fields are truthy and, independently of that, the pair (\<^verbatim>\<open>name\<close>, \<^verbatim>\<open>status\<close>) when
  both are truthy (\<open>own_updates\<close>); then the elements of a \<^verbatim>\<open>systems\<close> array are visited,
  then every property value whose \<^verbatim>\<open>typeof\<close> is \<^verbatim>\<open>object\<close>. The updates of a value are
  exactly those of its object nodes at any depth, and an array without such values
  changes nothing.
\<close>

theorem C1_applier_traversal:
  "applyStatusesFromData P d st = run_updates P (pending d) st
   \<and> set (pending d) = (\<Union>kvs\<in>set (object_nodes d). set (own_updates kvs))
   \<and> applyStatusesFromData P (JObj kvs) st
       = run_updates P (own_updates kvs @ concat (map pending (systems_elements kvs @ object_values kvs))) st
   \<and> (list_all (\<lambda>x. \<not> typeof_object x) xs \<longrightarrow> applyStatusesFromData P (JArr xs) st = Done st)"
proof -
  have "applyStatusesFromData P (JArr xs) st = Done st" if "list_all (\<lambda>x. \<not> typeof_object x) xs"
  proof -
    have "pending x = []" if "\<not> typeof_object x" for x
      using that by (cases x) simp_all
    with that have c: "concat (map pending xs) = []"
      by (simp add: list_all_iff)
    show ?thesis
      unfolding applier_runs_pending pending.simps c by simp
  qed
  then have "list_all (\<lambda>x. \<not> typeof_object x) xs \<longrightarrow> applyStatusesFromData P (JArr xs) st = Done st"
    by blast
  moreover have "applyStatusesFromData P (JObj kvs) st
       = run_updates P (own_updates kvs @ concat (map pending (systems_elements kvs @ object_values kvs))) st"
    by (simp add: applier_runs_pending)
  ultimately show ?thesis
    using applier_runs_pending [of P d st] pending_nodes [of d] by blast
qed

theorem C1_applier_traversal_witness:
  "applyStatusesFromData example_platform power_payload fresh_app
     = run_updates example_platform [(JStr ''POWER'', JStr ''CRITICAL'')] fresh_app
   \<and> map_of (systemStatuses (state_of (applyStatusesFromData example_platform power_payload fresh_app)))
        ''POWER'' = Some (JStr ''CRITICAL'')
   \<and> list_all (\<lambda>x. \<not> typeof_object x) [JNum 220, JStr ''60Hz'']
   \<and> applyStatusesFromData example_platform (JArr [JNum 220, JStr ''60Hz'']) fresh_app = Done fresh_app"
proof -
  note t = C1_applier_traversal [of example_platform power_payload fresh_app _ "[JNum 220, JStr ''60Hz'']"]
  have p: "pending power_payload = [(JStr ''POWER'', JStr ''CRITICAL'')]"
    by code_simp
  have l: "list_all (\<lambda>x. \<not> typeof_object x) [JNum 220, JStr ''60Hz'']"
    by simp
  have 1: "applyStatusesFromData example_platform power_payload fresh_app
     = run_updates example_platform [(JStr ''POWER'', JStr ''CRITICAL'')] fresh_app"
    using t [THEN conjunct1] by (simp only: p)
  have 2: "map_of (systemStatuses (state_of (run_updates example_platform [(JStr ''POWER'', JStr ''CRITICAL'')] fresh_app)))
        ''POWER'' = Some (JStr ''CRITICAL'')"
    by code_simp
  have 3: "applyStatusesFromData example_platform (JArr [JNum 220, JStr ''60Hz'']) fresh_app = Done fresh_app"
    using t [THEN conjunct2, THEN conjunct2, THEN conjunct2] l by (simp only: simp_thms)
  show ?thesis
    using 1 2 3 l by (simp only: simp_thms)
qed

text \<open>
  C1 as stated fails on a node that has \<^verbatim>\<open>system\<close>, \<^verbatim>\<open>name\<close> and \<^verbatim>\<open>status\<close>: the code
  also records the \<^verbatim>\<open>name\<close> pair; and on a node whose status is the empty string: the
  code records nothing.
\<close>

theorem C1_counterexample:
  "stated_pending both_named = [(JStr ''nav'', JStr ''ok''), (JStr ''power'', JStr '''')]
   \<and> pending both_named = [(JStr ''nav'', JStr ''ok''), (JStr ''autopilot'', JStr ''ok'')]
   \<and> map_of (systemStatuses (state_of (applyStatusesFromData example_platform both_named fresh_app)))
        ''AUTOPILOT'' = Some (JStr ''OK'')
   \<and> map_of (systemStatuses (state_of (run_updates example_platform (stated_pending both_named) fresh_app)))
        ''AUTOPILOT'' = None
   \<and> map_of (systemStatuses (state_of (applyStatusesFromData example_platform both_named fresh_app)))
        ''POWER'' = None
   \<and> map_of (systemStatuses (state_of (run_updates example_platform (stated_pending both_named) fresh_app)))
        ''POWER'' = Some (JStr '''')"
  by code_simp

section \<open>Status Applier: the resulting map\<close>

lemma updateSystemStatus_statuses:
  "systemStatuses (updateSystemStatus P a b st) = put (systemStatuses st) (toUpperCase P a) (JStr (toUpperCase P b))"
  by (simp add: updateSystemStatus_def Let_def)

lemma run_updates_statuses:
  "systemStatuses (state_of (run_updates P us st)) = write_all (systemStatuses st) (writes P us)"
proof (induction us arbitrary: st)
  case Nil
  show ?case by (simp add: write_all_def)
next
  case (Cons u us)
  obtain i s where u: "u = (i, s)" by (cases u)
  show ?case
    using Cons.IH
    by (simp add: u record_update_def updateSystemStatus_statuses write_all_def
        split: option.splits)
qed

lemma run_updates_Done_iff:
  "(\<exists>st'. run_updates P us st = Done st') \<longleftrightarrow> list_all (convertible P) us"
proof (induction us arbitrary: st)
  case Nil
  show ?case by simp
next
  case (Cons u us)
  obtain i s where u: "u = (i, s)" by (cases u)
  show ?case
    using Cons.IH
    by (auto simp: u record_update_def convertible_def split: option.splits)
qed

lemma map_of_write_all:
  "map_of (write_all m ws) k =
     (case map_of (rev ws) k of Some v \<Rightarrow> Some (JStr v) | None \<Rightarrow> map_of m k)"
proof (induction ws arbitrary: m)
  case Nil
  show ?case by (simp add: write_all_def)
next
  case (Cons w ws)
  obtain a b where w: "w = (a, b)" by (cases w)
  have "write_all m (w # ws) = write_all (put m a (JStr b)) ws"
    by (simp add: write_all_def w)
  then show ?case
    by (simp add: Cons.IH map_of_put w map_add_def map_of_append split: option.splits)
qed

lemma keys_of_write_all: "keys_of (write_all m ws) = keys_of m \<union> fst ` set ws"
proof (induction ws arbitrary: m)
  case Nil
  show ?case by (simp add: write_all_def)
next
  case (Cons w ws)
  obtain a b where w: "w = (a, b)" by (cases w)
  have "write_all m (w # ws) = write_all (put m a (JStr b)) ws"
    by (simp add: write_all_def w)
  then show ?case
    by (auto simp: Cons.IH keys_of_put w)
qed

lemma updateSystemStatus_env:
  "window_defined (updateSystemStatus P a b st) = window_defined st"
  "setItem_throws (updateSystemStatus P a b st) = setItem_throws st"
  "getItem_throws (updateSystemStatus P a b st) = getItem_throws st"
  by (simp_all add: updateSystemStatus_def persistStatuses_def warn_def Let_def)

lemma updateSystemStatus_persisted:
  "window_defined st \<Longrightarrow> \<not> setItem_throws st \<Longrightarrow> persisted P (updateSystemStatus P a b st)"
  by (simp add: updateSystemStatus_def persistStatuses_def persisted_def Let_def)

lemma run_updates_persisted:
  assumes "window_defined st" "\<not> setItem_throws st" "writes P us \<noteq> [] \<or> persisted P st"
  shows "persisted P (state_of (run_updates P us st))"
  using assms
proof (induction us arbitrary: st)
  case Nil
  then show ?case by simp
next
  case (Cons u us)
  obtain i s where u: "u = (i, s)" by (cases u)
  show ?case
  proof (cases "String_js P i")
    case None
    with Cons.prems show ?thesis by (simp add: u record_update_def)
  next
    case a: (Some a)
    show ?thesis
    proof (cases "String_js P s")
      case None
      with a Cons.prems show ?thesis by (simp add: u record_update_def)
    next
      case (Some b)
      have "persisted P (state_of (run_updates P us (updateSystemStatus P a b st)))"
        using Cons.prems by (intro Cons.IH) (simp_all add: updateSystemStatus_env updateSystemStatus_persisted)
      with a Some show ?thesis by (simp add: u record_update_def)
    qed
  qed
qed

lemma writes_convertible:
  "list_all (convertible P) us \<Longrightarrow> (i, s) \<in> set us \<Longrightarrow>
     \<exists>a b. String_js P i = Some a \<and> String_js P s = Some b \<and> (toUpperCase P a, toUpperCase P b) \<in> set (writes P us)"
proof (induction us)
  case Nil
  then show ?case by simp
next
  case (Cons u us)
  obtain i' s' where u: "u = (i', s')" by (cases u)
  from Cons.prems(1) obtain a' b' where c: "String_js P i' = Some a'" "String_js P s' = Some b'"
    by (auto simp: u convertible_def)
  show ?case
  proof (cases "(i, s) = u")
    case True
    with c show ?thesis by (auto simp: u)
  next
    case False
    with Cons obtain a b where "String_js P i = Some a" "String_js P s = Some b"
        "(toUpperCase P a, toUpperCase P b) \<in> set (writes P us)"
      by auto
    with c show ?thesis by (auto simp: u)
  qed
qed

lemma own_updates_member:
  assumes "ident = ''system'' \<or> ident = ''name''" "truthy_field kvs ident" "truthy_field kvs ''status''"
  shows "(field kvs ident, field kvs ''status'') \<in> set (own_updates kvs)"
  using assms by (auto simp: own_updates_def)

lemma last_write_member: "(k, v) \<in> set ws \<Longrightarrow> \<exists>v'. last_write ws k = Some v'"
  unfolding last_write_def
  by (metis domD domI set_rev weak_map_of_SomeI dom_map_of_conv_image_fst fst_conv image_eqI)

lemma last_write_in: "last_write ws k = Some v \<Longrightarrow> (k, v) \<in> set ws"
  unfolding last_write_def by (metis map_of_SomeD set_rev)

text \<open>
  C5, as amended. When applying a value completes, every object node at any depth whose
  \<^verbatim>\<open>system\<close> (or \<^verbatim>\<open>name\<close>) and \<^verbatim>\<open>status\<close> are truthy has written the upper-cased pair;
  the resulting map holds, under the upper-cased identifier, the value last written under
  that key, which is the node's upper-cased status when every write to the key carries
  it; and with a writable store the stored item is the serialisation of the resulting map.
\<close>

theorem C5_applied_statuses:
  assumes run: "applyStatusesFromData P d st = Done st'"
    and node: "kvs \<in> set (object_nodes d)"
    and ident: "ident = ''system'' \<or> ident = ''name''"
    and pair: "truthy_field kvs ident" "truthy_field kvs ''status''"
  shows "\<exists>a b v.
           String_js P (field kvs ident) = Some a \<and> String_js P (field kvs ''status'') = Some b
         \<and> (toUpperCase P a, toUpperCase P b) \<in> set (writes P (pending d))
         \<and> last_write (writes P (pending d)) (toUpperCase P a) = Some v
         \<and> map_of (systemStatuses st') (toUpperCase P a) = Some (JStr v)
         \<and> ((\<forall>w\<in>set (writes P (pending d)). fst w = toUpperCase P a \<longrightarrow> snd w = toUpperCase P b)
               \<longrightarrow> map_of (systemStatuses st') (toUpperCase P a) = Some (JStr (toUpperCase P b)))
         \<and> (window_defined st \<and> \<not> setItem_throws st
               \<longrightarrow> localStorage st' = Some (JSON_stringify P (JObj (systemStatuses st'))))"
proof -
  let ?ws = "writes P (pending d)"
  have r: "run_updates P (pending d) st = Done st'"
    using run by (simp add: applier_runs_pending)
  then have conv: "list_all (convertible P) (pending d)"
    using run_updates_Done_iff by blast
  have "(field kvs ident, field kvs ''status'') \<in> set (pending d)"
    using own_updates_member [OF ident pair] node by (auto simp: pending_nodes)
  from writes_convertible [OF conv this]
  obtain a b where ab: "String_js P (field kvs ident) = Some a" "String_js P (field kvs ''status'') = Some b"
      "(toUpperCase P a, toUpperCase P b) \<in> set ?ws"
    by blast
  from last_write_member [OF ab(3)] obtain v where v: "last_write ?ws (toUpperCase P a) = Some v"
    by blast
  have final: "systemStatuses st' = write_all (systemStatuses st) ?ws"
    using run_updates_statuses [of P "pending d" st] r by simp
  have m: "map_of (systemStatuses st') (toUpperCase P a) = Some (JStr v)"
    using v by (simp add: final map_of_write_all last_write_def)
  have same: "map_of (systemStatuses st') (toUpperCase P a) = Some (JStr (toUpperCase P b))"
    if "\<forall>w\<in>set ?ws. fst w = toUpperCase P a \<longrightarrow> snd w = toUpperCase P b"
  proof -
    from last_write_in [OF v] that have "v = toUpperCase P b"
      by auto
    with m show ?thesis by simp
  qed
  have pers: "localStorage st' = Some (JSON_stringify P (JObj (systemStatuses st')))"
    if "window_defined st \<and> \<not> setItem_throws st"
  proof -
    have "?ws \<noteq> []"
      using ab(3) by auto
    then have "persisted P (state_of (run_updates P (pending d) st))"
      using that by (intro run_updates_persisted) simp_all
    then show ?thesis
      by (simp add: r persisted_def)
  qed
  from ab v m same pers show ?thesis
    by blast
qed

theorem C5_applied_statuses_witness:
  "\<exists>st'. applyStatusesFromData example_platform power_payload fresh_app = Done st'
     \<and> map_of (systemStatuses st') ''POWER'' = Some (JStr ''CRITICAL'')
     \<and> localStorage st' = Some (example_stringify (JObj (systemStatuses st')))"
proof -
  let ?kvs = "[(''system'', JStr ''POWER''), (''status'', JStr ''CRITICAL''),
               (''parameters'', JObj [(''voltage'', JNum 220)])]"
  have "list_all (convertible example_platform) (pending power_payload)"
    by code_simp
  then obtain st' where run: "applyStatusesFromData example_platform power_payload fresh_app = Done st'"
    using run_updates_Done_iff [of example_platform "pending power_payload" fresh_app]
    by (auto simp: applier_runs_pending)
  have node: "?kvs \<in> set (object_nodes power_payload)"
    by code_simp
  have pair: "truthy_field ?kvs ''system''" "truthy_field ?kvs ''status''"
    by code_simp+
  have env: "window_defined fresh_app \<and> \<not> setItem_throws fresh_app"
    by code_simp
  have w: "writes example_platform (pending power_payload) = [(''POWER'', ''CRITICAL'')]"
    by code_simp
  have f: "String_js example_platform (field ?kvs ''system'') = Some ''POWER''"
    "String_js example_platform (field ?kvs ''status'') = Some ''CRITICAL''"
    by code_simp+
  have u: "toUpperCase example_platform ''POWER'' = ''POWER''" "toUpperCase example_platform ''CRITICAL'' = ''CRITICAL''"
    by code_simp+
  have ident: "''system'' = ''system'' \<or> ''system'' = ''name''"
    by simp
  from C5_applied_statuses [OF run node ident pair]
  have "map_of (systemStatuses st') ''POWER'' = Some (JStr ''CRITICAL'')
      \<and> localStorage st' = Some (JSON_stringify example_platform (JObj (systemStatuses st')))"
    using env by (auto simp: w f u)
  then show ?thesis
    using run by (auto simp: example_platform_def)
qed

text \<open>
  C5 as stated fails where a later node writes the same key with another status, and
  where the status of a pair is the empty string.
\<close>

theorem C5_counterexample:
  "[(''system'', JStr ''power''), (''status'', JStr ''critical'')] \<in> set (object_nodes rewritten)
   \<and> map_of (systemStatuses (state_of (applyStatusesFromData example_platform rewritten fresh_app)))
        ''POWER'' = Some (JStr ''RESOLVED'')
   \<and> [(''name'', JStr ''shields''), (''status'', JStr '''')] \<in> set (object_nodes rewritten)
   \<and> map_of (systemStatuses (state_of (applyStatusesFromData example_platform rewritten fresh_app)))
        ''SHIELDS'' = None"
  by code_simp

section \<open>Status Applier: falsy fields\<close>

text \<open>
  C10, as amended. A node first makes its own updates, then its descendants are
  visited. A falsy or missing \<^verbatim>\<open>status\<close> leaves the node without an update of its own;
  a falsy or missing \<^verbatim>\<open>system\<close> leaves only the \<^verbatim>\<open>name\<close> pair, when \<^verbatim>\<open>name\<close> and
  \<^verbatim>\<open>status\<close> are truthy; a falsy or missing \<^verbatim>\<open>name\<close> leaves only the \<^verbatim>\<open>system\<close> pair.
  The pair \<^verbatim>\<open>{"system": "POWER", "status": ""}\<close> changes nothing.
\<close>

theorem C10_falsy_fields:
  "applyStatusesFromData P (JObj kvs) st =
     (case run_updates P (own_updates kvs) st of
        Threw s \<Rightarrow> Threw s
      | Done s \<Rightarrow> forEach_apply P (systems_elements kvs @ object_values kvs) s)
   \<and> (\<not> truthy_field kvs ''status'' \<longrightarrow>
         own_updates kvs = []
         \<and> applyStatusesFromData P (JObj kvs) st
             = forEach_apply P (systems_elements kvs @ object_values kvs) st)
   \<and> (\<not> truthy_field kvs ''system'' \<longrightarrow>
         own_updates kvs =
           (if truthy_field kvs ''name'' \<and> truthy_field kvs ''status''
            then [(field kvs ''name'', field kvs ''status'')] else []))
   \<and> (\<not> truthy_field kvs ''name'' \<longrightarrow>
         own_updates kvs =
           (if truthy_field kvs ''system'' \<and> truthy_field kvs ''status''
            then [(field kvs ''system'', field kvs ''status'')] else []))
   \<and> applyStatusesFromData P (JObj [(''system'', JStr ''POWER''), (''status'', JStr '''')]) st = Done st"
proof -
  have 2: "own_updates kvs = []
         \<and> applyStatusesFromData P (JObj kvs) st
             = forEach_apply P (systems_elements kvs @ object_values kvs) st"
    if "\<not> truthy_field kvs ''status''"
  proof -
    have e: "own_updates kvs = []"
      using that by (simp add: own_updates_def)
    show ?thesis
      unfolding applier_node e by simp
  qed
  have 3: "own_updates kvs =
           (if truthy_field kvs ''name'' \<and> truthy_field kvs ''status''
            then [(field kvs ''name'', field kvs ''status'')] else [])"
    if "\<not> truthy_field kvs ''system''"
    using that by (simp add: own_updates_def)
  have 4: "own_updates kvs =
           (if truthy_field kvs ''system'' \<and> truthy_field kvs ''status''
            then [(field kvs ''system'', field kvs ''status'')] else [])"
    if "\<not> truthy_field kvs ''name''"
    using that by (simp add: own_updates_def)
  have 5: "applyStatusesFromData P (JObj [(''system'', JStr ''POWER''), (''status'', JStr '''')]) st = Done st"
    by (simp add: truthy_field_def systems_elements_def object_values_def)
  show ?thesis
    using applier_node [of P kvs st] 2 3 4 5 by blast
qed

theorem C10_falsy_fields_witness:
  "\<not> truthy_field [(''system'', JStr ''POWER''), (''status'', JStr '''')] ''status''
   \<and> has_field [(''system'', JStr ''POWER''), (''status'', JStr '''')] ''status''
   \<and> applyStatusesFromData example_platform falsy_status fresh_app = Done fresh_app
   \<and> \<not> truthy_field [(''system'', JStr ''''), (''name'', JStr ''nav''), (''status'', JStr ''ok'')] ''system''
   \<and> own_updates [(''system'', JStr ''''), (''name'', JStr ''nav''), (''status'', JStr ''ok'')]
        = [(JStr ''nav'', JStr ''ok'')]
   \<and> \<not> truthy_field [(''system'', JStr ''nav''), (''name'', JNum 0), (''status'', JStr ''ok'')] ''name''
   \<and> own_updates [(''system'', JStr ''nav''), (''name'', JNum 0), (''status'', JStr ''ok'')]
        = [(JStr ''nav'', JStr ''ok'')]"
proof -
  let ?a = "[(''system'', JStr ''POWER''), (''status'', JStr '''')]"
  let ?b = "[(''system'', JStr ''''), (''name'', JStr ''nav''), (''status'', JStr ''ok'')]"
  let ?c = "[(''system'', JStr ''nav''), (''name'', JNum 0), (''status'', JStr ''ok'')]"
  have a: "\<not> truthy_field ?a ''status''" "has_field ?a ''status''"
    by (simp_all add: truthy_field_def has_field_def)
  have b: "\<not> truthy_field ?b ''system''" "truthy_field ?b ''name''" "truthy_field ?b ''status''"
    "field ?b ''name'' = JStr ''nav''" "field ?b ''status'' = JStr ''ok''"
    by (simp_all add: truthy_field_def field_def)
  have c: "\<not> truthy_field ?c ''name''" "truthy_field ?c ''system''" "truthy_field ?c ''status''"
    "field ?c ''system'' = JStr ''nav''" "field ?c ''status'' = JStr ''ok''"
    by (simp_all add: truthy_field_def field_def)
  have 1: "applyStatusesFromData example_platform falsy_status fresh_app = Done fresh_app"
    using C10_falsy_fields [of example_platform ?a fresh_app, THEN conjunct2, THEN conjunct2,
        THEN conjunct2, THEN conjunct2]
    by (simp only: falsy_status_def)
  have 2: "own_updates ?b = [(JStr ''nav'', JStr ''ok'')]"
    using C10_falsy_fields [of example_platform ?b fresh_app, THEN conjunct2, THEN conjunct2,
        THEN conjunct1] b
    by (simp only: simp_thms if_True)
  have 3: "own_updates ?c = [(JStr ''nav'', JStr ''ok'')]"
    using C10_falsy_fields [of example_platform ?c fresh_app, THEN conjunct2, THEN conjunct2,
        THEN conjunct2, THEN conjunct1] c
    by (simp only: simp_thms if_True)
  show ?thesis
    using a b(1) c(1) 1 2 3 by (simp only: simp_thms)
qed

text \<open>
  C10 as stated fails on a node whose \<^verbatim>\<open>system\<close> is the empty string while \<^verbatim>\<open>name\<close> and
  \<^verbatim>\<open>status\<close> are truthy: the node records the \<^verbatim>\<open>name\<close> pair.
\<close>

theorem C10_counterexample:
  "has_field [(''system'', JStr ''''), (''name'', JStr ''nav''), (''status'', JStr ''ok'')] ''system''
   \<and> \<not> truthy (field [(''system'', JStr ''''), (''name'', JStr ''nav''), (''status'', JStr ''ok'')] ''system'')
   \<and> map_of (systemStatuses fresh_app) ''NAV'' = None
   \<and> map_of (systemStatuses (state_of (applyStatusesFromData example_platform falsy_system fresh_app)))
        ''NAV'' = Some (JStr ''OK'')"
  by code_simp

section \<open>JSON Extractor: the first fenced block\<close>

lemma not_sublist_butlast: "p \<noteq> [] \<Longrightarrow> \<not> sublist p (butlast p)"
  using sublist_length_le [of p "butlast p"] by (cases p) auto

lemma no_early_prefix:
  assumes "p \<noteq> []" "a \<noteq> []" "\<not> sublist p (a @ butlast p)"
  shows "\<not> prefix p (a @ p @ rest)"
proof
  assume p: "prefix p (a @ p @ rest)"
  have "prefix (a @ butlast p) (a @ p @ rest)"
    using assms(1) by (metis append_butlast_last_id prefix_prefix same_prefix_prefix prefixI append.assoc)
  moreover have "length p \<le> length (a @ butlast p)"
    using assms(1,2) by (cases a) simp_all
  ultimately have "prefix p (a @ butlast p)"
    using p prefix_length_prefix by blast
  with assms(3) show False
    by blast
qed

lemma lazy_until_found:
  assumes "cl \<noteq> []" "\<not> sublist cl (g @ butlast cl)"
  shows "lazy_until cl (g @ cl @ post) = Some g"
  using assms(2)
proof (induction g)
  case Nil
  obtain c cs where "cl = c # cs"
    using assms(1) by (cases cl) auto
  then show ?case by simp
next
  case (Cons x g)
  have "\<not> prefix cl ((x # g) @ cl @ post)"
    using no_early_prefix [OF assms(1) _ Cons.prems] by simp
  moreover have "\<not> sublist cl (g @ butlast cl)"
    using Cons.prems by (simp add: sublist_Cons_right)
  ultimately show ?case
    using Cons.IH by simp
qed

lemma lazy_until_None: "cl \<noteq> [] \<Longrightarrow> lazy_until cl s = None \<longleftrightarrow> \<not> sublist cl s"
  by (induction s) (auto simp: sublist_Cons_right)

lemma lazy_until_Some:
  assumes "cl \<noteq> []" "lazy_until cl s = Some g"
  shows "\<exists>post. s = g @ cl @ post \<and> \<not> sublist cl (g @ butlast cl)"
  using assms(2)
proof (induction s arbitrary: g)
  case Nil
  with assms(1) show ?case by simp
next
  case (Cons c cs)
  show ?case
  proof (cases "prefix cl (c # cs)")
    case True
    then have g: "g = []"
      using Cons.prems by simp
    have "\<not> sublist cl (butlast cl)"
      using assms(1) by (rule not_sublist_butlast)
    with True g show ?thesis
      by (auto simp: prefix_def)
  next
    case False
    then obtain g' where g': "lazy_until cl cs = Some g'" "g = c # g'"
      using Cons.prems by auto
    from Cons.IH [OF g'(1)] obtain post where post: "cs = g' @ cl @ post"
      and n: "\<not> sublist cl (g' @ butlast cl)"
      by blast
    have "prefix (c # g' @ butlast cl) (c # cs)"
      using assms(1) post
      by (metis append_butlast_last_id prefix_prefix same_prefix_prefix prefixI append.assoc Cons_prefix_Cons)
    then have "\<not> prefix cl (c # g' @ butlast cl)"
      using False by (meson prefix_order.trans)
    with n have "\<not> sublist cl ((c # g') @ butlast cl)"
      by (simp add: sublist_Cons_right)
    with post g' show ?thesis
      by simp
  qed
qed

lemma fence_nonempty: "fence_open \<noteq> []" "fence_close \<noteq> []"
  by (simp_all add: fence_open_def fence_close_def)

lemma match_fence_no_close:
  "\<not> sublist fence_close s \<Longrightarrow> match_fence s = None"
proof (induction s)
  case Nil
  show ?case by simp
next
  case (Cons c cs)
  have "\<not> sublist fence_close (drop (length fence_open) (c # cs))"
    using Cons.prems by (meson sublist_drop sublist_order.order.trans)
  then have "lazy_until fence_close (drop (length fence_open) (c # cs)) = None"
    by (simp add: lazy_until_None fence_nonempty)
  moreover have "match_fence cs = None"
    using Cons by (simp add: sublist_Cons_right)
  ultimately show ?case
    by simp
qed

lemma match_fence_inside_opening:
  assumes "\<not> sublist fence_close rest" "length u < length fence_open"
  shows "match_fence (u @ rest) = None"
  using assms(2)
proof (induction u)
  case Nil
  with assms(1) show ?case by (simp add: match_fence_no_close)
next
  case (Cons c u)
  have "drop (length fence_open) ((c # u) @ rest)
          = drop (length fence_open) (c # u) @ drop (length fence_open - length (c # u)) rest"
    by (rule drop_append)
  moreover have "drop (length fence_open) (c # u) = []"
    using Cons.prems by (intro drop_all) simp
  ultimately
  have "drop (length fence_open) ((c # u) @ rest) = drop (length fence_open - length (c # u)) rest"
    by simp
  then have "\<not> sublist fence_close (drop (length fence_open) ((c # u) @ rest))"
    using assms(1) by (metis sublist_drop sublist_order.order.trans)
  then have "lazy_until fence_close (drop (length fence_open) (c # u @ rest)) = None"
    by (simp add: lazy_until_None fence_nonempty)
  moreover have "match_fence (u @ rest) = None"
    using Cons by simp
  ultimately show ?case
    by simp
qed

lemma match_fence_at_opening:
  "match_fence (fence_open @ rest) = lazy_until fence_close rest"
proof -
  obtain c cs where o: "fence_open = c # cs"
    using fence_nonempty(1) by (cases fence_open) auto
  have step: "match_fence (fence_open @ rest)
        = (case lazy_until fence_close rest of
             Some g \<Rightarrow> Some g | None \<Rightarrow> match_fence (cs @ rest))"
    by (simp add: o)
  show ?thesis
  proof (cases "lazy_until fence_close rest")
    case None
    then have "\<not> sublist fence_close rest"
      by (simp add: lazy_until_None fence_nonempty)
    then have "match_fence (cs @ rest) = None"
      by (intro match_fence_inside_opening) (simp_all add: o)
    with None step show ?thesis
      by simp
  next
    case (Some g)
    with step show ?thesis
      by simp
  qed
qed

lemma match_fence_first_opening:
  assumes "\<not> sublist fence_open (pre @ butlast fence_open)"
  shows "match_fence (pre @ fence_open @ rest) = lazy_until fence_close rest"
  using assms
proof (induction pre)
  case Nil
  show ?case by (simp add: match_fence_at_opening)
next
  case (Cons x pre)
  have "\<not> prefix fence_open ((x # pre) @ fence_open @ rest)"
    using no_early_prefix [OF fence_nonempty(1) _ Cons.prems] by simp
  moreover have "\<not> sublist fence_open (pre @ butlast fence_open)"
    using Cons.prems by (simp add: sublist_Cons_right)
  ultimately show ?case
    using Cons.IH by simp
qed

lemma match_fence_first_fence:
  "first_fence t pre g post \<Longrightarrow> match_fence t = Some g"
  unfolding first_fence_def
  by (simp add: match_fence_first_opening lazy_until_found fence_nonempty)

lemma match_fence_sound:
  "match_fence t = Some g \<Longrightarrow> \<exists>pre post. first_fence t pre g post"
proof (induction t)
  case Nil
  then show ?case by simp
next
  case (Cons c cs)
  show ?case
  proof (cases "prefix fence_open (c # cs)")
    case True
    then obtain rest where rest: "c # cs = fence_open @ rest"
      by (auto simp: prefix_def)
    then have "lazy_until fence_close rest = Some g"
      using Cons.prems match_fence_at_opening [of rest] by simp
    from lazy_until_Some [OF fence_nonempty(2) this]
    obtain post where post: "rest = g @ fence_close @ post"
      and n: "\<not> sublist fence_close (g @ butlast fence_close)"
      by blast
    have "\<not> sublist fence_open (butlast fence_open)"
      using fence_nonempty(1) by (rule not_sublist_butlast)
    then have "first_fence (c # cs) [] g post"
      using rest post n by (simp add: first_fence_def)
    then show ?thesis
      by blast
  next
    case False
    then have "match_fence cs = Some g"
      using Cons.prems by simp
    from Cons.IH [OF this] obtain pre post where f: "first_fence cs pre g post"
      by blast
    then have cs: "cs = pre @ fence_open @ g @ fence_close @ post"
      and no: "\<not> sublist fence_open (pre @ butlast fence_open)"
      and nc: "\<not> sublist fence_close (g @ butlast fence_close)"
      by (simp_all add: first_fence_def)
    have "prefix (c # pre @ butlast fence_open) (c # cs)"
      unfolding cs using fence_nonempty(1)
      by (metis append_butlast_last_id prefix_prefix same_prefix_prefix prefixI Cons_prefix_Cons)
    then have "\<not> prefix fence_open (c # pre @ butlast fence_open)"
      using False by (meson prefix_order.trans)
    with no have "\<not> sublist fence_open ((c # pre) @ butlast fence_open)"
      by (simp add: sublist_Cons_right)
    with cs nc have "first_fence (c # cs) (c # pre) g post"
      by (simp add: first_fence_def)
    then show ?thesis
      by blast
  qed
qed

lemma match_fence_complete:
  "match_fence (pre @ fence_open @ g @ fence_close @ post) \<noteq> None"
proof (induction pre)
  case Nil
  have "sublist fence_close (g @ fence_close @ post)"
    by simp
  then show ?case
    by (simp add: match_fence_at_opening lazy_until_None fence_nonempty)
next
  case (Cons x pre)
  then show ?case
    by (auto split: option.splits)
qed

text \<open>
  C2. With a \<^verbatim>\<open>JSON.parse\<close> that rejects the empty text: when the text holds a fenced
  block tagged as JSON, the extractor returns what parsing the content of the first such
  block gives, or \<^verbatim>\<open>null\<close> when that content does not parse, whatever follows the block;
  a text that holds a fenced block has a first one; and a text without a fenced block
  gives \<^verbatim>\<open>null\<close>.
\<close>

theorem C2_extractJson:
  assumes "JSON_parse P [] = None"
  shows "(first_fence t pre g post \<longrightarrow>
            fst (extractJson P t st) = (case JSON_parse P g of Some v \<Rightarrow> v | None \<Rightarrow> JNull)
          \<and> fst (extractJson P t st) = fst (extractJson P (pre @ fence_open @ g @ fence_close) st))
       \<and> ((\<exists>pre g post. t = pre @ fence_open @ g @ fence_close @ post)
             \<longrightarrow> (\<exists>pre g post. first_fence t pre g post))
       \<and> ((\<nexists>pre g post. t = pre @ fence_open @ g @ fence_close @ post)
             \<longrightarrow> fst (extractJson P t st) = JNull)"
proof -
  have parsed: "fst (extractJson P t' st) = (case JSON_parse P g of Some v \<Rightarrow> v | None \<Rightarrow> JNull)"
    if "first_fence t' pre' g post'" for t' pre' post'
    using match_fence_first_fence [OF that] assms
    by (simp add: extractJson_def split: option.splits)
  have 1: "fst (extractJson P t st) = (case JSON_parse P g of Some v \<Rightarrow> v | None \<Rightarrow> JNull)
          \<and> fst (extractJson P t st) = fst (extractJson P (pre @ fence_open @ g @ fence_close) st)"
    if f: "first_fence t pre g post"
  proof -
    have "first_fence (pre @ fence_open @ g @ fence_close) pre g []"
      using f by (simp add: first_fence_def)
    from parsed [OF f] parsed [OF this] show ?thesis
      by simp
  qed
  have 2: "\<exists>pre g post. first_fence t pre g post"
    if "\<exists>pre g post. t = pre @ fence_open @ g @ fence_close @ post"
  proof -
    from that match_fence_complete obtain g where "match_fence t = Some g"
      by fastforce
    then show ?thesis
      using match_fence_sound by blast
  qed
  have 3: "fst (extractJson P t st) = JNull"
    if n: "\<nexists>pre g post. t = pre @ fence_open @ g @ fence_close @ post"
  proof (cases "match_fence t")
    case None
    then show ?thesis by (simp add: extractJson_def)
  next
    case (Some g)
    from match_fence_sound [OF this] n show ?thesis
      by (auto simp: first_fence_def)
  qed
  from 1 2 3 show ?thesis
    by blast
qed

theorem C2_extractJson_witness:
  "JSON_parse example_platform [] = None
   \<and> first_fence two_blocks ''Switching to POWER.\<newline>'' power_text later_block
   \<and> fst (extractJson example_platform two_blocks fresh_app) = power_payload
   \<and> first_fence broken_block [] ''{broken'' []
   \<and> fst (extractJson example_platform broken_block fresh_app) = JNull
   \<and> \<not> sublist fence_open ''SYSTEMS STABILIZED''
   \<and> fst (extractJson example_platform ''SYSTEMS STABILIZED'' fresh_app) = JNull"
proof -
  have e: "JSON_parse example_platform [] = None"
    by code_simp
  have f: "first_fence two_blocks ''Switching to POWER.\<newline>'' power_text later_block"
    by code_simp
  have p: "JSON_parse example_platform power_text = Some power_payload"
    by code_simp
  have b: "first_fence broken_block [] ''{broken'' []"
    by code_simp
  have q: "JSON_parse example_platform ''{broken'' = None"
    by code_simp
  have n: "\<not> sublist fence_open ''SYSTEMS STABILIZED''"
    by code_simp
  then have n': "\<nexists>pre g post. ''SYSTEMS STABILIZED'' = pre @ fence_open @ g @ fence_close @ post"
    by (metis sublist_appendI)
  have 1: "fst (extractJson example_platform two_blocks fresh_app) = power_payload"
    using C2_extractJson [OF e, of two_blocks _ power_text later_block fresh_app] f p
    by simp
  have 2: "fst (extractJson example_platform broken_block fresh_app) = JNull"
    using C2_extractJson [OF e, of broken_block "[]" "''{broken''" "[]" fresh_app] b q
    by simp
  have 3: "fst (extractJson example_platform ''SYSTEMS STABILIZED'' fresh_app) = JNull"
    using C2_extractJson [OF e, of "''SYSTEMS STABILIZED''" _ _ _ fresh_app] n'
    by blast
  show ?thesis
    using e f b n 1 2 3 by (simp only: simp_thms)
qed

section \<open>Status Store: saving and loading\<close>

lemma map_of_spread: "map_of (spread base over) = map_of base ++ map_of (rev over)"
proof -
  have "map_of (foldl (\<lambda>acc (k, v). put acc k v) base over) = map_of base ++ map_of (rev over)"
  proof (induction over arbitrary: base)
    case Nil
    show ?case by simp
  next
    case (Cons p over)
    obtain k v where p: "p = (k, v)" by (cases p)
    show ?case
      by (simp add: Cons.IH p map_of_put map_add_upd_left fun_eq_iff map_add_def split: option.splits)
  qed
  then show ?thesis
    by (simp add: spread_def)
qed

lemma keys_of_spread: "keys_of (spread base over) = keys_of base \<union> keys_of over"
proof -
  have "keys_of (foldl (\<lambda>acc (k, v). put acc k v) base over) = keys_of base \<union> keys_of over"
  proof (induction over arbitrary: base)
    case Nil
    show ?case by (simp add: keys_of_def)
  next
    case (Cons p over)
    obtain k v where p: "p = (k, v)" by (cases p)
    have "keys_of (p # over) = insert k (keys_of over)"
      by (simp add: keys_of_def p)
    then show ?case
      by (simp add: Cons.IH p keys_of_put)
  qed
  then show ?thesis
    by (simp add: spread_def)
qed

lemma map_of_rev_distinct: "distinct (map fst m) \<Longrightarrow> map_of (rev m) = map_of m"
proof (induction m)
  case Nil
  show ?case by simp
next
  case (Cons p m)
  obtain k v where p: "p = (k, v)" by (cases p)
  have "map_of (rev m) k = None"
    using Cons.prems by (simp add: p map_of_eq_None_iff)
  then show ?case
    using Cons by (auto simp: p fun_eq_iff map_add_def split: option.splits)
qed

lemma keys_of_defaults: "keys_of defaultSystemStatuses = default_keys"
  by (auto simp: keys_of_def defaultSystemStatuses_def default_keys_def)

lemma loadStatuses_keys: "default_keys \<subseteq> keys_of (fst (loadStatuses P st))"
  using keys_of_defaults
  by (auto simp: loadStatuses_def keys_of_spread split: option.splits)

lemma loadStatuses_state:
  "systemStatuses (snd (loadStatuses P st)) = systemStatuses st"
  by (simp add: loadStatuses_def warn_def split: option.splits)

text \<open>
  C6. In a browser whose storage can be written and read, and for a map \<open>m\<close> (an object:
  its keys are distinct) that \<^verbatim>\<open>JSON.stringify\<close> and \<^verbatim>\<open>JSON.parse\<close> carry through
  unchanged, saving \<open>m\<close> and then loading gives the default map overridden by \<open>m\<close>:
  a key of \<open>m\<close> has the value \<open>m\<close> gives it, any other key has its default value.
\<close>

theorem C6_save_then_load:
  assumes store: "window_defined st" "\<not> setItem_throws st" "\<not> getItem_throws st"
    and object: "distinct (map fst m)"
    and nonempty: "JSON_stringify P (JObj m) \<noteq> []"
    and roundtrip: "JSON_parse P (JSON_stringify P (JObj m)) = Some (JObj m)"
  shows "map_of (fst (loadStatuses P (persistStatuses P m st))) = map_of defaultSystemStatuses ++ map_of m
       \<and> (\<forall>k v. map_of m k = Some v \<longrightarrow> map_of (fst (loadStatuses P (persistStatuses P m st))) k = Some v)
       \<and> (\<forall>k. map_of m k = None \<longrightarrow>
             map_of (fst (loadStatuses P (persistStatuses P m st))) k = map_of defaultSystemStatuses k)"
proof -
  have "fst (loadStatuses P (persistStatuses P m st)) = spread defaultSystemStatuses m"
    using store nonempty roundtrip by (simp add: loadStatuses_def persistStatuses_def)
  then have "map_of (fst (loadStatuses P (persistStatuses P m st))) = map_of defaultSystemStatuses ++ map_of m"
    using object by (simp add: map_of_spread map_of_rev_distinct)
  then show ?thesis
    by (simp add: map_add_def)
qed

theorem C6_save_then_load_witness:
  "window_defined fresh_app \<and> \<not> setItem_throws fresh_app \<and> \<not> getItem_throws fresh_app
   \<and> distinct (map fst [(''POWER'', JStr ''RESOLVED'')])
   \<and> JSON_stringify example_platform (JObj [(''POWER'', JStr ''RESOLVED'')]) = ''{\"POWER\":\"RESOLVED\"}''
   \<and> JSON_parse example_platform ''{\"POWER\":\"RESOLVED\"}'' = Some (JObj [(''POWER'', JStr ''RESOLVED'')])
   \<and> map_of (fst (loadStatuses example_platform
                 (persistStatuses example_platform [(''POWER'', JStr ''RESOLVED'')] fresh_app))) ''POWER''
        = Some (JStr ''RESOLVED'')
   \<and> map_of (fst (loadStatuses example_platform
                 (persistStatuses example_platform [(''POWER'', JStr ''RESOLVED'')] fresh_app))) ''NAVIGATION''
        = Some (JStr ''CRITICAL'')"
proof -
  let ?m = "[(''POWER'', JStr ''RESOLVED'')]"
  have s: "window_defined fresh_app" "\<not> setItem_throws fresh_app" "\<not> getItem_throws fresh_app"
    by code_simp+
  have d: "distinct (map fst ?m)"
    by simp
  have t: "JSON_stringify example_platform (JObj ?m) = ''{\"POWER\":\"RESOLVED\"}''"
    by code_simp
  have p: "JSON_parse example_platform ''{\"POWER\":\"RESOLVED\"}'' = Some (JObj ?m)"
    by code_simp
  have t': "JSON_stringify example_platform (JObj ?m) \<noteq> []"
    by (simp add: t)
  have p': "JSON_parse example_platform (JSON_stringify example_platform (JObj ?m)) = Some (JObj ?m)"
    by (simp only: t p)
  note l = C6_save_then_load [OF s d t' p']
  have 1: "map_of (fst (loadStatuses example_platform (persistStatuses example_platform ?m fresh_app))) ''POWER''
        = Some (JStr ''RESOLVED'')"
    using l [THEN conjunct2, THEN conjunct1] by simp
  have "map_of ?m ''NAVIGATION'' = None"
    by simp
  then have 2: "map_of (fst (loadStatuses example_platform (persistStatuses example_platform ?m fresh_app))) ''NAVIGATION''
        = Some (JStr ''CRITICAL'')"
    using l [THEN conjunct2, THEN conjunct2] by (simp add: defaultSystemStatuses_def)
  show ?thesis
    using s d t p 1 2 by (simp only: simp_thms)
qed

text \<open>
  C7, as amended. When reading the store throws, or the stored text does not parse, the
  load returns the default map and logs one warning; when nothing (or the empty text) is
  stored, or there is no \<^verbatim>\<open>window\<close>, it returns the default map and logs nothing.
  Every case returns a map: nothing is thrown to the caller.
\<close>

theorem C7_load_fallback:
  "(window_defined st \<and> getItem_throws st \<longrightarrow>
      loadStatuses P st = (defaultSystemStatuses, st\<lparr>console := console st @ [load_warning]\<rparr>))
   \<and> (window_defined st \<and> \<not> getItem_throws st \<and> localStorage st = Some stored \<and> stored \<noteq> []
        \<and> JSON_parse P stored = None \<longrightarrow>
      loadStatuses P st = (defaultSystemStatuses, st\<lparr>console := console st @ [load_warning]\<rparr>))
   \<and> (window_defined st \<and> \<not> getItem_throws st
        \<and> (localStorage st = None \<or> localStorage st = Some []) \<longrightarrow>
      loadStatuses P st = (defaultSystemStatuses, st))
   \<and> (\<not> window_defined st \<longrightarrow> loadStatuses P st = (defaultSystemStatuses, st))"
  by (auto simp: loadStatuses_def warn_def load_warning_def)

theorem C7_load_fallback_witness:
  "loadStatuses example_platform (fresh_app\<lparr>getItem_throws := True\<rparr>)
     = (defaultSystemStatuses, fresh_app\<lparr>getItem_throws := True, console := [load_warning]\<rparr>)
   \<and> JSON_parse example_platform ''{broken'' = None
   \<and> loadStatuses example_platform (fresh_app\<lparr>localStorage := Some ''{broken''\<rparr>)
     = (defaultSystemStatuses, fresh_app\<lparr>localStorage := Some ''{broken'', console := [load_warning]\<rparr>)
   \<and> localStorage fresh_app = None
   \<and> loadStatuses example_platform fresh_app = (defaultSystemStatuses, fresh_app)
   \<and> loadStatuses example_platform (fresh_app\<lparr>window_defined := False\<rparr>)
     = (defaultSystemStatuses, fresh_app\<lparr>window_defined := False\<rparr>)"
proof -
  have f: "window_defined fresh_app" "\<not> getItem_throws fresh_app" "localStorage fresh_app = None"
    "console fresh_app = []"
    by code_simp+
  have q: "JSON_parse example_platform ''{broken'' = None"
    by code_simp
  have 1: "loadStatuses example_platform (fresh_app\<lparr>getItem_throws := True\<rparr>)
     = (defaultSystemStatuses, fresh_app\<lparr>getItem_throws := True, console := [load_warning]\<rparr>)"
    using C7_load_fallback [of "fresh_app\<lparr>getItem_throws := True\<rparr>" example_platform, THEN conjunct1] f
    by simp
  have 2: "loadStatuses example_platform (fresh_app\<lparr>localStorage := Some ''{broken''\<rparr>)
     = (defaultSystemStatuses, fresh_app\<lparr>localStorage := Some ''{broken'', console := [load_warning]\<rparr>)"
    using C7_load_fallback [of "fresh_app\<lparr>localStorage := Some ''{broken''\<rparr>" example_platform "''{broken''",
        THEN conjunct2, THEN conjunct1] f q
    by simp
  have 3: "loadStatuses example_platform fresh_app = (defaultSystemStatuses, fresh_app)"
    using C7_load_fallback [of fresh_app example_platform, THEN conjunct2, THEN conjunct2, THEN conjunct1] f
    by simp
  have 4: "loadStatuses example_platform (fresh_app\<lparr>window_defined := False\<rparr>)
     = (defaultSystemStatuses, fresh_app\<lparr>window_defined := False\<rparr>)"
    using C7_load_fallback [of "fresh_app\<lparr>window_defined := False\<rparr>" example_platform,
        THEN conjunct2, THEN conjunct2, THEN conjunct2]
    by simp
  show ?thesis
    using 1 2 3 4 q f(3) by (simp only: simp_thms)
qed

text \<open>
  C7 as stated fails for missing storage: the defaults are returned, and no warning is
  logged.
\<close>

theorem C7_counterexample:
  "window_defined fresh_app \<and> localStorage fresh_app = None
   \<and> fst (loadStatuses example_platform fresh_app) = defaultSystemStatuses
   \<and> console (snd (loadStatuses example_platform fresh_app)) = []"
  by code_simp

section \<open>Chat Session Controller: what the handlers change\<close>




lemma applier_keys:
  "keys_of (systemStatuses st) \<subseteq> keys_of (systemStatuses (state_of (applyStatusesFromData P d st)))"
  by (simp add: applier_runs_pending run_updates_statuses keys_of_write_all)


lemma extractJson_frame: "\<exists>lg. snd (extractJson P t st) = st\<lparr>console := lg\<rparr>"
proof -
  have "snd (extractJson P t st) = st\<lparr>console := console st\<rparr>
      \<or> snd (extractJson P t st) = st\<lparr>console := console st @ [Error ''Failed to parse extracted JSON'']\<rparr>"
    by (simp add: extractJson_def split: option.splits)
  then show ?thesis by blast
qed


lemma apply_extracted_keys:
  "keys_of (systemStatuses st) \<subseteq> keys_of (systemStatuses (state_of (apply_extracted P t st)))"
proof -
  obtain v s where e: "extractJson P t st = (v, s)"
    by (cases "extractJson P t st")
  obtain lg where s: "s = st\<lparr>console := lg\<rparr>"
    using extractJson_frame [of P t st] e by auto
  show ?thesis
    using applier_keys [of "s\<lparr>currentSystemData := v\<rparr>" P v]
    by (simp add: apply_extracted_def e s)
qed


lemma stream_start_result:
  "stream_start cs acc st =
     (acc @ concat (map chunk_text cs),
      st\<lparr>messages := (if cs = [] then messages st else [model_message (acc @ concat (map chunk_text cs))])\<rparr>)"
  by (induction cs arbitrary: acc st) (simp_all add: Let_def)

lemma replace_last_twice: "replace_last m (replace_last m' ms) = replace_last m ms"
  by (simp add: replace_last_def)


lemma stream_send_result:
  "stream_send cs acc st =
     (acc @ concat (map chunk_text cs),
      st\<lparr>messages := (if cs = [] then messages st
                        else replace_last (model_message (acc @ concat (map chunk_text cs))) (messages st))\<rparr>)"
  by (induction cs arbitrary: acc st) (simp_all add: Let_def replace_last_twice)





section \<open>Chat Session Controller: failures of the model service\<close>






section \<open>Status Store: the default keys\<close>

lemma handleSend_keys:
  "keys_of (systemStatuses st) \<subseteq> keys_of (systemStatuses (handleSend P t st))"
proof (cases "blank (input st) \<or> \<not> gameActive st \<or> loading st")
  case True
  then show ?thesis by (simp add: handleSend_def)
next
  case False
  let ?st1 = "st\<lparr>input := [], messages := messages st @ [user_message (input st)], loading := True\<rparr>"
  have "keys_of (systemStatuses ?st1) \<subseteq> keys_of (systemStatuses (state_of (send_try P t ?st1)))"
  proof (cases "chatRef st")
    case False
    then show ?thesis by (simp add: send_try_def)
  next
    case True
    show ?thesis
    proof (cases t)
      case Send_rejects
      then show ?thesis by (simp add: send_try_def)
    next
      case (Stream_breaks cs)
      then show ?thesis using True by (simp add: send_try_def stream_send_result)
    next
      case (Stream_ends cs)
      let ?u = "snd (stream_send cs [] (?st1\<lparr>messages := messages ?st1 @ [model_message []]\<rparr>))"
      have u: "systemStatuses ?u = systemStatuses st"
        by (simp add: stream_send_result)
      have k: "keys_of (systemStatuses ?u)
                 \<subseteq> keys_of (systemStatuses (state_of (apply_extracted P (concat (map chunk_text cs)) ?u)))"
        by (rule apply_extracted_keys)
      show ?thesis
      proof (cases "apply_extracted P (concat (map chunk_text cs)) ?u")
        case (Done s2)
        then show ?thesis
          using True Stream_ends k u
          by (simp add: send_try_def stream_send_result endGame_def Let_def)
      next
        case (Threw s2)
        then show ?thesis
          using True Stream_ends k u
          by (simp add: send_try_def stream_send_result)
      qed
    qed
  qed
  then show ?thesis
    using False by (cases "send_try P t ?st1") (simp_all add: handleSend_def Let_def)
qed

lemma startGame_keys: "default_keys \<subseteq> keys_of (systemStatuses (startGame P api st))"
proof -
  let ?b = "st\<lparr>loading := True, gameStarted := True, gameActive := True, gameOver := False,
                 victory := False, timeLeft := GAME_TIME_LIMIT, messages := [],
                 currentSystemData := JNull\<rparr>"
  obtain loaded s where l: "loadStatuses P ?b = (loaded, s)"
    by (cases "loadStatuses P ?b")
  have d: "default_keys \<subseteq> keys_of loaded"
    using loadStatuses_keys [of P ?b] l by simp
  let ?c = "s\<lparr>systemStatuses := loaded\<rparr>"
  have "keys_of loaded \<subseteq> keys_of (systemStatuses (state_of (start_try P api ?c)))"
  proof (cases api)
    case Create_throws
    then show ?thesis by (simp add: start_try_def)
  next
    case (Created t)
    show ?thesis
    proof (cases t)
      case Send_rejects
      with Created show ?thesis by (simp add: start_try_def Let_def)
    next
      case (Stream_breaks cs)
      with Created show ?thesis by (simp add: start_try_def Let_def stream_start_result)
    next
      case (Stream_ends cs)
      let ?u = "snd (stream_start cs [] (?c\<lparr>chatRef := True, messages := [model_message []]\<rparr>))"
      have u: "systemStatuses ?u = loaded"
        by (simp add: stream_start_result)
      have k: "keys_of (systemStatuses ?u)
                 \<subseteq> keys_of (systemStatuses (state_of (apply_extracted P (concat (map chunk_text cs)) ?u)))"
        by (rule apply_extracted_keys)
      show ?thesis
      proof (cases "apply_extracted P (concat (map chunk_text cs)) ?u")
        case (Done s2)
        then show ?thesis
          using Created Stream_ends k u
          by (simp add: start_try_def stream_start_result startTimer_def Let_def)
      next
        case (Threw s2)
        then show ?thesis
          using Created Stream_ends k u
          by (simp add: start_try_def stream_start_result Let_def)
      qed
    qed
  qed
  with d have "default_keys \<subseteq> keys_of (systemStatuses (state_of (start_try P api ?c)))"
    by blast
  then show ?thesis
    by (cases "start_try P api ?c") (simp_all add: startGame_def Let_def l)
qed

lemma step_keys:
  "default_keys \<subseteq> keys_of (systemStatuses st) \<Longrightarrow> default_keys \<subseteq> keys_of (systemStatuses (step P st e))"
proof (cases e)
  case (Start api)
  then show ?thesis by (simp add: startGame_keys)
next
  case (Send t)
  assume "default_keys \<subseteq> keys_of (systemStatuses st)"
  with handleSend_keys [of st P t] Send show ?thesis by auto
next
  case Tick
  assume "default_keys \<subseteq> keys_of (systemStatuses st)"
  with Tick show ?thesis by (simp add: tick_def endGame_def Let_def)
next
  case (Type s)
  assume "default_keys \<subseteq> keys_of (systemStatuses st)"
  with Type show ?thesis by simp
qed

lemma run_keys:
  "default_keys \<subseteq> keys_of (systemStatuses st) \<Longrightarrow> default_keys \<subseteq> keys_of (systemStatuses (run P st evs))"
  unfolding run_def by (induction evs arbitrary: st) (simp_all add: step_keys)

lemma mount_keys: "default_keys \<subseteq> keys_of (systemStatuses (mount P w g s stored))"
proof -
  let ?st0 = "\<lparr>messages = [], input = [], timeLeft = GAME_TIME_LIMIT, gameActive = False,
                  gameStarted = False, gameOver = False, victory = False, loading = False,
                  currentSystemData = JNull, systemStatuses = [], chatRef = False,
                  timerRef = Null, window_defined = w, getItem_throws = g,
                  setItem_throws = s, localStorage = stored, console = []\<rparr>"
  show ?thesis
    using loadStatuses_keys [of P ?st0]
    by (cases "loadStatuses P ?st0") (simp add: mount_def Let_def)
qed

text \<open>
  C9. The three default keys are in the map after the first render and in every map a
  load returns; a status update adds its key and removes none; applying a payload
  removes none; and after any sequence of starts, sends, ticks and edits of the input
  the three default keys are still there.
\<close>

theorem C9_default_keys_kept:
  "default_keys \<subseteq> keys_of (systemStatuses (mount P w g s stored))
   \<and> default_keys \<subseteq> keys_of (fst (loadStatuses P st))
   \<and> keys_of (systemStatuses (updateSystemStatus P a b st)) = insert (toUpperCase P a) (keys_of (systemStatuses st))
   \<and> keys_of (systemStatuses st) \<subseteq> keys_of (systemStatuses (state_of (applyStatusesFromData P d st)))
   \<and> default_keys \<subseteq> keys_of (systemStatuses (run P (mount P w g s stored) evs))"
  using mount_keys loadStatuses_keys applier_keys run_keys [OF mount_keys]
  by (simp add: updateSystemStatus_statuses keys_of_put)

theorem C9_default_keys_kept_witness:
  "default_keys \<subseteq> keys_of (systemStatuses
      (run example_platform (mount example_platform True False False (Some ''{\"POWER\":\"RESOLVED\"}''))
         [Start opening_turn, Type ''open power'', Send (Stream_ends [Some two_blocks]), Tick]))
   \<and> ''POWER'' \<in> keys_of (systemStatuses
      (run example_platform (mount example_platform True False False (Some ''{\"POWER\":\"RESOLVED\"}''))
         [Start opening_turn, Type ''open power'', Send (Stream_ends [Some two_blocks]), Tick]))"
proof -
  have "''POWER'' \<in> keys_of (systemStatuses
      (run example_platform (mount example_platform True False False (Some ''{\"POWER\":\"RESOLVED\"}''))
         [Start opening_turn, Type ''open power'', Send (Stream_ends [Some two_blocks]), Tick]))"
    by code_simp
  then show ?thesis
    using C9_default_keys_kept [of example_platform True False False "Some ''{\"POWER\":\"RESOLVED\"}''"]
    by blast
qed

end
